theory Spec2Isabelle
  imports Complex_Main "HOL-Library.Word"
begin

unbundle bit_operations_syntax

section \<open>Numbers\<close>

text \<open>
  The sizes of the split layout are JavaScript numbers.  They are modelled as exact reals;
  the only non-finite value the code produces on purpose is \<open>Infinity\<close>, the maximum size
  of an unconstrained box (\<open>maxW = Infinity\<close> in \<open>SplitLayout._fit\<close>).  A value that may be
  \<open>Infinity\<close> has the type \<open>extnum\<close>; \<open>size\<close>, \<open>sizeHint\<close> and \<open>minSize\<close> are finite.
\<close>

datatype extnum = Num real | Infinity

text \<open>\<open>a - b\<close> for a possibly infinite \<open>a\<close> and a finite \<open>b\<close>.\<close>

fun ext_sub :: "extnum \<Rightarrow> real \<Rightarrow> extnum" where
  "ext_sub (Num a) b = Num (a - b)"
| "ext_sub Infinity b = Infinity"

text \<open>\<open>a + b\<close>.\<close>

fun ext_add :: "extnum \<Rightarrow> extnum \<Rightarrow> extnum" where
  "ext_add (Num a) (Num b) = Num (a + b)"
| "ext_add Infinity b = Infinity"
| "ext_add a Infinity = Infinity"


text \<open>\<open>Math.min(d, a)\<close> for a finite \<open>d\<close>: the result is finite.\<close>

fun ext_min :: "real \<Rightarrow> extnum \<Rightarrow> real" where
  "ext_min d (Num a) = min d a"
| "ext_min d Infinity = d"

text \<open>\<open>Math.min(d, a, b)\<close> for a finite \<open>d\<close>.\<close>

definition min3 :: "real \<Rightarrow> extnum \<Rightarrow> extnum \<Rightarrow> real" where
  "min3 d a b = ext_min (ext_min d a) b"

section \<open>Box sizers and vectors\<close>

text \<open>
  The fields of \<open>BoxSizer\<close> that the split layout reads and writes.  The class itself lives in
  \<open>./boxengine\<close>; the fields are the ones used by \<open>setSizes\<close>, \<open>setHandlePosition\<close>,
  \<open>_fit\<close>, \<open>growSizer\<close> and \<open>shrinkSizer\<close>.  The field \<open>size\<close> is called \<open>cur_size\<close>
  here, \<open>size\<close> being a constant of HOL.
\<close>

record BoxSizer =
  sizeHint :: real
  minSize :: real
  maxSize :: extnum
  stretch :: real
  cur_size :: real

datatype error = TypeError | InvalidParent | CannotAttachChild | AlreadyAttached
  | HostNotAttached | CannotDetachChild | NotAttached

text \<open>
  \<open>Vector.at(index)\<close>: the element, or \<open>undefined\<close> (here \<open>None\<close>) outside the vector, which
  is what \<open>setHandlePosition\<close> tests with \<open>!handle\<close>.  Reading a field of \<open>undefined\<close> raises
  a \<open>TypeError\<close>.
\<close>

definition vector_at :: "'a list \<Rightarrow> int \<Rightarrow> 'a option" where
  "vector_at xs i = (if 0 \<le> i \<and> i < int (length xs) then Some (xs ! nat i) else None)"

section \<open>The interactive adjuster: \<open>Private.growSizer\<close> and \<open>Private.shrinkSizer\<close>\<close>

text \<open>How much a sizer can still expand, \<open>sizer.maxSize - sizer.size\<close>.\<close>

definition headroom :: "BoxSizer \<Rightarrow> extnum" where
  "headroom sizer = ext_sub (maxSize sizer) (cur_size sizer)"

text \<open>How much a sizer can still shrink, \<open>sizer.size - sizer.minSize\<close>.\<close>

definition slack :: "BoxSizer \<Rightarrow> extnum" where
  "slack sizer = Num (cur_size sizer - minSize sizer)"

text \<open>
  The two limit loops, \<open>for (let i = lo; i < hi; ++i) { limit += f(sizers.at(i)) }\<close>.
  The loop \<open>for (let i = 0; i <= index; ++i)\<close> is the one with \<open>hi = index + 1\<close>.
\<close>

function limitLoop :: "(BoxSizer \<Rightarrow> extnum) \<Rightarrow> BoxSizer list \<Rightarrow> int \<Rightarrow> int \<Rightarrow> extnum
    \<Rightarrow> error + extnum" where
  "limitLoop f sizers i hi acc =
     (if i < hi then
        (case vector_at sizers i of
           None \<Rightarrow> Inl TypeError
         | Some sizer \<Rightarrow> limitLoop f sizers (i + 1) hi (ext_add acc (f sizer)))
      else Inr acc)"
  by pat_completeness auto
termination
  by (relation "measure (\<lambda>(f, sizers, i, hi, acc). nat (hi - i))") auto

text \<open>
  The body of a grow loop: the sizer takes \<open>grow\<close> when its limit allows it, and its whole
  limit otherwise.  The result is the written sizer and the amount still to place.
\<close>

definition growStep :: "BoxSizer \<Rightarrow> real \<Rightarrow> BoxSizer \<times> real" where
  "growStep sizer grow =
     (case headroom sizer of
        Infinity \<Rightarrow> (sizer\<lparr>sizeHint := cur_size sizer + grow\<rparr>, 0)
      | Num limit \<Rightarrow>
          if limit \<ge> grow then (sizer\<lparr>sizeHint := cur_size sizer + grow\<rparr>, 0)
          else (sizer\<lparr>sizeHint := cur_size sizer + limit\<rparr>, grow - limit))"

text \<open>The body of a shrink loop.\<close>

definition shrinkStep :: "BoxSizer \<Rightarrow> real \<Rightarrow> BoxSizer \<times> real" where
  "shrinkStep sizer shrink =
     (let limit = cur_size sizer - minSize sizer in
      if limit \<ge> shrink then (sizer\<lparr>sizeHint := cur_size sizer - shrink\<rparr>, 0)
      else (sizer\<lparr>sizeHint := cur_size sizer - limit\<rparr>, shrink - limit))"

text \<open>\<open>for (let i = index; i >= 0 && amt > 0; --i) { ... }\<close>\<close>

function walkDown :: "(BoxSizer \<Rightarrow> real \<Rightarrow> BoxSizer \<times> real) \<Rightarrow> BoxSizer list \<Rightarrow> int \<Rightarrow> real
    \<Rightarrow> error + BoxSizer list" where
  "walkDown step sizers i amt =
     (if i \<ge> 0 \<and> amt > 0 then
        (case vector_at sizers i of
           None \<Rightarrow> Inl TypeError
         | Some sizer \<Rightarrow>
             walkDown step (sizers[nat i := fst (step sizer amt)]) (i - 1) (snd (step sizer amt)))
      else Inr sizers)"
  by pat_completeness auto
termination
  by (relation "measure (\<lambda>(step, sizers, i, amt). nat (i + 1))") auto

text \<open>\<open>for (let i = lo, n = sizers.length; i < n && amt > 0; ++i) { ... }\<close>\<close>

function walkUp :: "(BoxSizer \<Rightarrow> real \<Rightarrow> BoxSizer \<times> real) \<Rightarrow> BoxSizer list \<Rightarrow> int \<Rightarrow> int \<Rightarrow> real
    \<Rightarrow> error + BoxSizer list" where
  "walkUp step sizers i n amt =
     (if i < n \<and> amt > 0 then
        (case vector_at sizers i of
           None \<Rightarrow> Inl TypeError
         | Some sizer \<Rightarrow>
             walkUp step (sizers[nat i := fst (step sizer amt)]) (i + 1) n (snd (step sizer amt)))
      else Inr sizers)"
  by pat_completeness auto
termination
  by (relation "measure (\<lambda>(step, sizers, i, n, amt). nat (n - i))") auto

declare limitLoop.simps [simp del] walkDown.simps [simp del] walkUp.simps [simp del]

text \<open>Grow a sizer to the right by a positive delta and adjust neighbors.\<close>

definition growSizer :: "BoxSizer list \<Rightarrow> int \<Rightarrow> real \<Rightarrow> error + BoxSizer list" where
  "growSizer sizers index delta =
     (case limitLoop headroom sizers 0 (index + 1) (Num 0) of
        Inl e \<Rightarrow> Inl e
      | Inr growLimit \<Rightarrow>
     (case limitLoop slack sizers (index + 1) (int (length sizers)) (Num 0) of
        Inl e \<Rightarrow> Inl e
      | Inr shrinkLimit \<Rightarrow>
     (let delta' = min3 delta growLimit shrinkLimit in
      case walkDown growStep sizers index delta' of
        Inl e \<Rightarrow> Inl e
      | Inr sizers' \<Rightarrow> walkUp shrinkStep sizers' (index + 1) (int (length sizers')) delta')))"

text \<open>Shrink a sizer to the left by a positive delta and adjust neighbors.\<close>

definition shrinkSizer :: "BoxSizer list \<Rightarrow> int \<Rightarrow> real \<Rightarrow> error + BoxSizer list" where
  "shrinkSizer sizers index delta =
     (case limitLoop headroom sizers (index + 1) (int (length sizers)) (Num 0) of
        Inl e \<Rightarrow> Inl e
      | Inr growLimit \<Rightarrow>
     (case limitLoop slack sizers 0 (index + 1) (Num 0) of
        Inl e \<Rightarrow> Inl e
      | Inr shrinkLimit \<Rightarrow>
     (let delta' = min3 delta growLimit shrinkLimit in
      case walkUp growStep sizers (index + 1) (int (length sizers)) delta' of
        Inl e \<Rightarrow> Inl e
      | Inr sizers' \<Rightarrow> walkDown shrinkStep sizers' index delta')))"

section \<open>The split layout\<close>

datatype Orientation = Horizontal | Vertical

text \<open>
  A split handle: whether its class list holds \<open>p-mod-hidden\<close>, and the two offsets
  \<open>setHandlePosition\<close> reads.
\<close>

record Handle =
  hiddenClass :: bool
  offsetLeft :: real
  offsetTop :: real

text \<open>
  What the layout reads of a child widget: its \<open>isHidden\<close> flag, the size limits that
  \<open>sizeLimits(widget.node)\<close> measures, and its stretch factor
  (\<open>SplitLayout.getStretch(widget)\<close>).
\<close>

record Child =
  isHidden :: bool
  minWidth :: real
  maxWidth :: extnum
  minHeight :: real
  maxHeight :: extnum
  childStretch :: real

text \<open>
  The state of a \<open>SplitLayout\<close>: the private fields, the child widgets in index order,
  whether \<open>this.parent\<close> is set, and the number of \<open>update-request\<close> messages posted to
  the parent by \<open>this.parent.update()\<close>.
\<close>

record SplitLayout =
  sizers :: "BoxSizer list"
  handles :: "Handle list"
  widgets :: "Child list"
  orientation :: Orientation
  spacing :: real
  fixed :: real
  dirty :: bool
  hasParent :: bool
  postedUpdates :: nat

text \<open>\<open>sizes()\<close>: the current sizes of the widgets in the layout.\<close>

definition sizes :: "SplitLayout \<Rightarrow> real list" where
  "sizes L = map cur_size (sizers L)"

text \<open>\<open>each(this._sizers, sizer => { if (sizer.size > 0) sizer.sizeHint = sizer.size; })\<close>\<close>

definition pinHints :: "BoxSizer list \<Rightarrow> BoxSizer list" where
  "pinHints ss = map (\<lambda>sizer. if cur_size sizer > 0 then sizer\<lparr>sizeHint := cur_size sizer\<rparr> else sizer) ss"

text \<open>\<open>if (this.parent) this.parent.update();\<close>\<close>

definition requestUpdate :: "SplitLayout \<Rightarrow> SplitLayout" where
  "requestUpdate L = (if hasParent L then L\<lparr>postedUpdates := postedUpdates L + 1\<rparr> else L)"

text \<open>The desired delta movement for a handle.\<close>

definition handleDelta :: "SplitLayout \<Rightarrow> Handle \<Rightarrow> real \<Rightarrow> real" where
  "handleDelta L handle position =
     (if orientation L = Horizontal then position - offsetLeft handle
      else position - offsetTop handle)"

text \<open>Set the offset position of a split handle.\<close>

definition setHandlePosition :: "SplitLayout \<Rightarrow> int \<Rightarrow> real \<Rightarrow> error + SplitLayout" where
  "setHandlePosition L index position =
     (case vector_at (handles L) index of
        None \<Rightarrow> Inr L
      | Some handle \<Rightarrow>
          if hiddenClass handle then Inr L
          else if handleDelta L handle position = 0 then Inr L
          else
            (case (if handleDelta L handle position > 0
                   then growSizer (pinHints (sizers L)) index (handleDelta L handle position)
                   else shrinkSizer (pinHints (sizers L)) index (- handleDelta L handle position)) of
               Inl e \<Rightarrow> Inl e
             | Inr sizers' \<Rightarrow> Inr (requestUpdate (L\<lparr>sizers := sizers'\<rparr>))))"

section \<open>The adjuster as the specification describes it\<close>

text \<open>The sum of a list of possibly infinite numbers.\<close>

fun ext_sum :: "extnum list \<Rightarrow> extnum" where
  "ext_sum [] = Num 0"
| "ext_sum (x # xs) = ext_add x (ext_sum xs)"

text \<open>
  The limits of a forward move at boundary \<open>i\<close>: what the sizers up to \<open>i\<close> can still grow
  into, and what the sizers after \<open>i\<close> can still give up.
\<close>

definition spec_growLimit :: "BoxSizer list \<Rightarrow> nat \<Rightarrow> extnum" where
  "spec_growLimit ss i =
     ext_sum (map (\<lambda>s. ext_sub (maxSize s) (cur_size s)) (take (Suc i) ss))"

definition spec_shrinkLimit :: "BoxSizer list \<Rightarrow> nat \<Rightarrow> extnum" where
  "spec_shrinkLimit ss i =
     ext_sum (map (\<lambda>s. Num (cur_size s - minSize s)) (drop (Suc i) ss))"

text \<open>
  Cascading saturation over a group of sizers listed nearest to the boundary first: the
  nearest sizer absorbs what it can, up to its maximum, and only the overflow reaches the
  next one.  A sizer that no overflow reaches is left as it is.
\<close>

fun cascade_grow :: "real \<Rightarrow> BoxSizer list \<Rightarrow> BoxSizer list" where
  "cascade_grow amt [] = []"
| "cascade_grow amt (s # ss) =
     (if amt > 0 then
        s\<lparr>sizeHint := cur_size s + ext_min amt (ext_sub (maxSize s) (cur_size s))\<rparr>
          # cascade_grow (amt - ext_min amt (ext_sub (maxSize s) (cur_size s))) ss
      else s # ss)"

text \<open>The same for giving space up, down to the minimum of each sizer.\<close>

fun cascade_shrink :: "real \<Rightarrow> BoxSizer list \<Rightarrow> BoxSizer list" where
  "cascade_shrink amt [] = []"
| "cascade_shrink amt (s # ss) =
     (if amt > 0 then
        s\<lparr>sizeHint := cur_size s - min amt (cur_size s - minSize s)\<rparr>
          # cascade_shrink (amt - min amt (cur_size s - minSize s)) ss
      else s # ss)"

text \<open>
  A forward move (\<open>delta > 0\<close>) at boundary \<open>i\<close>: the effective delta is
  \<open>min(delta, growLimit, shrinkLimit)\<close>; the left group absorbs it walking backward from \<open>i\<close>,
  the right group gives it up walking forward from \<open>i + 1\<close>.
\<close>

definition spec_move_forward :: "BoxSizer list \<Rightarrow> nat \<Rightarrow> real \<Rightarrow> BoxSizer list" where
  "spec_move_forward ss i delta =
     (let eff = min3 delta (spec_growLimit ss i) (spec_shrinkLimit ss i)
      in rev (cascade_grow eff (rev (take (Suc i) ss))) @ cascade_shrink eff (drop (Suc i) ss))"

text \<open>
  The mirror, a backward move by \<open>delta > 0\<close>: the right group grows walking forward from
  \<open>i + 1\<close>, the left group shrinks walking backward from \<open>i\<close>, and the limits change sides.
\<close>

definition spec_move_backward :: "BoxSizer list \<Rightarrow> nat \<Rightarrow> real \<Rightarrow> BoxSizer list" where
  "spec_move_backward ss i delta =
     (let eff = min3 delta
            (ext_sum (map (\<lambda>s. ext_sub (maxSize s) (cur_size s)) (drop (Suc i) ss)))
            (ext_sum (map (\<lambda>s. Num (cur_size s - minSize s)) (take (Suc i) ss)))
      in rev (cascade_shrink eff (rev (take (Suc i) ss))) @ cascade_grow eff (drop (Suc i) ss))"

section \<open>Auxiliary notions for the proofs\<close>

text \<open>
  One of the walking loops as a function on the list of the sizers it visits, in the order
  it visits them.
\<close>

fun absorb :: "(BoxSizer \<Rightarrow> real \<Rightarrow> BoxSizer \<times> real) \<Rightarrow> real \<Rightarrow> BoxSizer list \<Rightarrow> BoxSizer list" where
  "absorb step amt [] = []"
| "absorb step amt (s # ss) =
     (if amt > 0 then fst (step s amt) # absorb step (snd (step s amt)) ss else s # ss)"



text \<open>Two sizers that differ in the size hint at most.\<close>

definition onlyHint :: "BoxSizer \<Rightarrow> BoxSizer \<Rightarrow> bool" where
  "onlyHint s s' = (cur_size s' = cur_size s \<and> minSize s' = minSize s \<and>
     maxSize s' = maxSize s \<and> stretch s' = stretch s)"

section \<open>The fit pass: \<open>SplitLayout._fit\<close>\<close>

text \<open>
  The first loop of \<open>_fit\<close>: it updates the handles and tracks the visible widget count.
  \<open>lastHandle\<close> refers to a handle of the vector; it is kept as the index of that handle.
\<close>

function fitHandles :: "Child list \<Rightarrow> Handle list \<Rightarrow> int \<Rightarrow> int \<Rightarrow> int option \<Rightarrow> int
    \<Rightarrow> error + (Handle list \<times> int option \<times> int)" where
  "fitHandles ws hs i n lastHandle nVisible =
     (if i < n then
        (case vector_at ws i of
           None \<Rightarrow> Inl TypeError
         | Some widget \<Rightarrow>
        (case vector_at hs i of
           None \<Rightarrow> Inl TypeError
         | Some handle \<Rightarrow>
             if isHidden widget then
               fitHandles ws (hs[nat i := handle\<lparr>hiddenClass := True\<rparr>]) (i + 1) n
                 lastHandle nVisible
             else
               fitHandles ws (hs[nat i := handle\<lparr>hiddenClass := False\<rparr>]) (i + 1) n
                 (Some i) (nVisible + 1)))
      else Inr (hs, lastHandle, nVisible))"
  by pat_completeness auto
termination
  by (relation "measure (\<lambda>(ws, hs, i, n, lastHandle, nVisible). nat (n - i))") auto

text \<open>\<open>if (lastHandle) lastHandle.classList.add(HIDDEN_CLASS);\<close>\<close>

definition hideLastHandle :: "Handle list \<Rightarrow> int option \<Rightarrow> Handle list" where
  "hideLastHandle hs lastHandle =
     (case lastHandle of
        None \<Rightarrow> hs
      | Some j \<Rightarrow> hs[nat j := (hs ! nat j)\<lparr>hiddenClass := True\<rparr>])"

text \<open>The second loop of \<open>_fit\<close>, as far as it updates the sizers.\<close>

function fitSizers :: "Child list \<Rightarrow> bool \<Rightarrow> BoxSizer list \<Rightarrow> int \<Rightarrow> int \<Rightarrow> error + BoxSizer list" where
  "fitSizers ws horz ss i n =
     (if i < n then
        (case vector_at ws i of
           None \<Rightarrow> Inl TypeError
         | Some widget \<Rightarrow>
        (case vector_at ss i of
           None \<Rightarrow> Inl TypeError
         | Some sizer0 \<Rightarrow>
             (let sizer = (if cur_size sizer0 > 0 then sizer0\<lparr>sizeHint := cur_size sizer0\<rparr>
                           else sizer0)
              in if isHidden widget then
                   fitSizers ws horz (ss[nat i := sizer\<lparr>minSize := 0, maxSize := Num 0\<rparr>])
                     (i + 1) n
                 else if horz then
                   fitSizers ws horz
                     (ss[nat i := sizer\<lparr>stretch := childStretch widget,
                                        minSize := minWidth widget, maxSize := maxWidth widget\<rparr>])
                     (i + 1) n
                 else
                   fitSizers ws horz
                     (ss[nat i := sizer\<lparr>stretch := childStretch widget,
                                        minSize := minHeight widget, maxSize := maxHeight widget\<rparr>])
                     (i + 1) n)))
      else Inr ss)"
  by pat_completeness auto
termination
  by (relation "measure (\<lambda>(ws, horz, ss, i, n). nat (n - i))") auto

declare fitHandles.simps [simp del] fitSizers.simps [simp del]

text \<open>
  Fit the layout to the total size required by the widgets.  The model keeps what the pass
  does to the layout itself: the handles, the fixed space, the sizers and the dirty flag.
  The size constraints written to the style of the parent's node, and the two messages sent
  at the end (\<open>fit-request\<close> to the ancestor, \<open>update-request\<close> to the parent), belong to the
  rendering surface and to the message loop.
\<close>

definition fit :: "SplitLayout \<Rightarrow> error + SplitLayout" where
  "fit L =
     (case fitHandles (widgets L) (handles L) 0 (int (length (widgets L))) None 0 of
        Inl e \<Rightarrow> Inl e
      | Inr (hs, lastHandle, nVisible) \<Rightarrow>
     (case fitSizers (widgets L) (orientation L = Horizontal) (sizers L) 0
             (int (length (widgets L))) of
        Inl e \<Rightarrow> Inl e
      | Inr ss \<Rightarrow>
          Inr (L\<lparr>handles := hideLastHandle hs lastHandle,
                 fixed := spacing L * max 0 (real_of_int nVisible - 1),
                 sizers := ss,
                 dirty := True\<rparr>)))"

section \<open>A concrete layout\<close>

text \<open>
  Two panes of size 50 with limits 10 and 100, laid out horizontally with a spacing of 3; the
  handle of the last pane is hidden, as a fit pass leaves it.
\<close>

definition exampleSizer :: BoxSizer where
  "exampleSizer = \<lparr>sizeHint = 50, minSize = 10, maxSize = Num 100, stretch = 1, cur_size = 50\<rparr>"

definition exampleChild :: Child where
  "exampleChild = \<lparr>isHidden = False, minWidth = 10, maxWidth = Num 100, minHeight = 0,
     maxHeight = Infinity, childStretch = 1\<rparr>"

definition exampleLayout :: SplitLayout where
  "exampleLayout =
     \<lparr>sizers = [exampleSizer, exampleSizer],
      handles = [\<lparr>hiddenClass = False, offsetLeft = 50, offsetTop = 0\<rparr>,
                 \<lparr>hiddenClass = True, offsetLeft = 103, offsetTop = 0\<rparr>],
      widgets = [exampleChild, exampleChild],
      orientation = Horizontal, spacing = 3, fixed = 3, dirty = False,
      hasParent = True, postedUpdates = 0\<rparr>"

text \<open>Four panes of size 50 whose limits make a move at boundary 1 cascade on both sides.\<close>

definition cascadeSizers :: "BoxSizer list" where
  "cascadeSizers =
     [\<lparr>sizeHint = 50, minSize = 10, maxSize = Num 60, stretch = 1, cur_size = 50\<rparr>,
      \<lparr>sizeHint = 50, minSize = 10, maxSize = Num 70, stretch = 1, cur_size = 50\<rparr>,
      \<lparr>sizeHint = 50, minSize = 30, maxSize = Infinity, stretch = 1, cur_size = 50\<rparr>,
      \<lparr>sizeHint = 50, minSize = 45, maxSize = Infinity, stretch = 1, cur_size = 50\<rparr>]"

text \<open>Three panes, the first two visible and the third hidden, before any fit pass.\<close>

definition hiddenTailLayout :: SplitLayout where
  "hiddenTailLayout =
     \<lparr>sizers = [exampleSizer, exampleSizer, exampleSizer],
      handles = [\<lparr>hiddenClass = False, offsetLeft = 0, offsetTop = 0\<rparr>,
                 \<lparr>hiddenClass = False, offsetLeft = 0, offsetTop = 0\<rparr>,
                 \<lparr>hiddenClass = False, offsetLeft = 0, offsetTop = 0\<rparr>],
      widgets = [exampleChild, exampleChild, exampleChild\<lparr>isHidden := True\<rparr>],
      orientation = Horizontal, spacing = 3, fixed = 0, dirty = False,
      hasParent = True, postedUpdates = 0\<rparr>"

section \<open>Widgets\<close>

text \<open>
  Widgets are objects; a reference to a widget is a number, and the fields of each widget are
  kept in a store.
\<close>

type_synonym wref = nat

text \<open>The enum of widget bit flags.\<close>

datatype WidgetFlag = IsDisposed | IsAttached | IsHidden | IsVisible | DisallowLayout

fun flagValue :: "WidgetFlag \<Rightarrow> 32 word" where
  "flagValue IsDisposed = 0x1"
| "flagValue IsAttached = 0x2"
| "flagValue IsHidden = 0x4"
| "flagValue IsVisible = 0x8"
| "flagValue DisallowLayout = 0x10"

text \<open>\<open>(this._flags & flag) !== 0\<close>, \<open>this._flags |= flag\<close> and \<open>this._flags &= ~flag\<close>.\<close>

definition testFlag :: "32 word \<Rightarrow> WidgetFlag \<Rightarrow> bool" where
  "testFlag fl flag = (fl AND flagValue flag \<noteq> 0)"

definition setFlag :: "32 word \<Rightarrow> WidgetFlag \<Rightarrow> 32 word" where
  "setFlag fl flag = fl OR flagValue flag"

definition clearFlag :: "32 word \<Rightarrow> WidgetFlag \<Rightarrow> 32 word" where
  "clearFlag fl flag = fl AND NOT (flagValue flag)"

text \<open>
  The fields of a widget: \<open>_flags\<close>; whether \<open>_node\<close> and \<open>_layout\<close> are set; \<open>_parent\<close>;
  whether the node carries the class \<open>p-mod-hidden\<close>; whether signal, message and property
  data are attached to the widget; and whether \<open>document.body\<close> contains the node.
\<close>

record Widget =
  flags :: "32 word"
  node :: bool
  layout :: bool
  parent :: "wref option"
  hiddenStyle :: bool
  signalData :: bool
  messageData :: bool
  propertyData :: bool
  inDocument :: bool

text \<open>
  The message types of the widget class.  \<open>close-request\<close> and its handler
  \<open>onCloseRequest\<close> are not part of this model.
\<close>

datatype msgType = Resize | UpdateRequest | AfterShow | BeforeHide | AfterAttach | BeforeDetach
  | ChildAdded | ChildRemoved | ChildShown | ChildHidden | FitRequest | LayoutChanged
  | ParentChanged

text \<open>A message: its type and, for a \<open>ChildMessage\<close>, the child it is about.\<close>

type_synonym message = "msgType \<times> wref option"

text \<open>
  What an observer of the widgets sees, in the order it happens: a message delivered to a
  widget by \<open>sendMessage\<close>, the assignment of a parent, the \<open>disposed\<close> signal of a widget and
  the disposal of the layout of a widget.
\<close>

datatype event = Sent wref msgType "wref option" | ParentSet wref "wref option"
  | DisposedSignal wref | LayoutDisposed wref

record World =
  store :: "wref \<Rightarrow> Widget"
  trace :: "event list"

text \<open>
  Modelled from the spec: the class \<open>Layout\<close> (\<open>./layout\<close>) is not among the sources.  A layout
  owns an ordered sequence of child widgets; the children of the layout of a widget, and
  theirs, form a tree.
\<close>

datatype wtree = WTree wref "wtree list"

fun widgetOf :: "wtree \<Rightarrow> wref" where
  "widgetOf (WTree w cs) = w"

definition flagsOf :: "World \<Rightarrow> wref \<Rightarrow> 32 word" where
  "flagsOf W w = flags (store W w)"

definition isDisposed :: "World \<Rightarrow> wref \<Rightarrow> bool" where
  "isDisposed W w = testFlag (flagsOf W w) IsDisposed"

definition isAttached :: "World \<Rightarrow> wref \<Rightarrow> bool" where
  "isAttached W w = testFlag (flagsOf W w) IsAttached"

definition isHidden_w :: "World \<Rightarrow> wref \<Rightarrow> bool" where
  "isHidden_w W w = testFlag (flagsOf W w) IsHidden"

definition isVisible :: "World \<Rightarrow> wref \<Rightarrow> bool" where
  "isVisible W w = testFlag (flagsOf W w) IsVisible"

definition parentOf :: "World \<Rightarrow> wref \<Rightarrow> wref option" where
  "parentOf W w = parent (store W w)"

text \<open>\<open>!this.parent || this.parent.isVisible\<close>\<close>

definition parentVisible :: "World \<Rightarrow> wref \<Rightarrow> bool" where
  "parentVisible W w = (case parentOf W w of None \<Rightarrow> True | Some p \<Rightarrow> isVisible W p)"

text \<open>Writing a field of a widget of the store.\<close>

definition updWidget :: "wref \<Rightarrow> (Widget \<Rightarrow> Widget) \<Rightarrow> World \<Rightarrow> World" where
  "updWidget w f W = W\<lparr>store := (store W)(w := f (store W w))\<rparr>"

definition setFlagOf :: "wref \<Rightarrow> WidgetFlag \<Rightarrow> World \<Rightarrow> World" where
  "setFlagOf w flag W = updWidget w (\<lambda>x. x\<lparr>flags := setFlag (flags x) flag\<rparr>) W"

definition clearFlagOf :: "wref \<Rightarrow> WidgetFlag \<Rightarrow> World \<Rightarrow> World" where
  "clearFlagOf w flag W = updWidget w (\<lambda>x. x\<lparr>flags := clearFlag (flags x) flag\<rparr>) W"

definition record_event :: "event \<Rightarrow> World \<Rightarrow> World" where
  "record_event e W = W\<lparr>trace := trace W @ [e]\<rparr>"

text \<open>
  \<open>Widget.processMessage\<close>, with \<open>notifyLayout\<close> and, for the layout, what the specification
  says of it.

  Modelled from the spec: \<open>Layout.processParentMessage\<close> is not among the sources.  A layout
  passes \<open>after-attach\<close> and \<open>before-detach\<close> on to every child, and \<open>after-show\<close> and
  \<open>before-hide\<close> to the children that are not explicitly hidden; it passes no other message
  on.  \<open>forwardAll\<close> and \<open>forwardShown\<close> are these two loops, each delivery a \<open>sendMessage\<close>.
  The message handlers of the widget class (\<open>onResize\<close>, \<open>onAfterShow\<close>, ...) are no-ops.
\<close>

fun processMessage :: "message \<Rightarrow> wtree \<Rightarrow> World \<Rightarrow> World"
  and notifyLayout :: "message \<Rightarrow> wref \<Rightarrow> wtree list \<Rightarrow> World \<Rightarrow> World"
  and forwardAll :: "message \<Rightarrow> wtree list \<Rightarrow> World \<Rightarrow> World"
  and forwardShown :: "message \<Rightarrow> wtree list \<Rightarrow> World \<Rightarrow> World" where
  "processMessage msg (WTree w cs) W =
     (case fst msg of
        AfterShow \<Rightarrow> notifyLayout msg w cs (setFlagOf w IsVisible W)
      | BeforeHide \<Rightarrow> clearFlagOf w IsVisible (notifyLayout msg w cs W)
      | AfterAttach \<Rightarrow>
          (let visible = (\<not> isHidden_w W w \<and> parentVisible W w);
               W1 = (if visible then setFlagOf w IsVisible W else W);
               W2 = setFlagOf w IsAttached W1
           in notifyLayout msg w cs W2)
      | BeforeDetach \<Rightarrow>
          clearFlagOf w IsAttached (clearFlagOf w IsVisible (notifyLayout msg w cs W))
      | _ \<Rightarrow> notifyLayout msg w cs W)"
| "notifyLayout msg w cs W =
     (if layout (store W w) then
        (case fst msg of
           AfterShow \<Rightarrow> forwardShown msg cs W
         | BeforeHide \<Rightarrow> forwardShown msg cs W
         | AfterAttach \<Rightarrow> forwardAll msg cs W
         | BeforeDetach \<Rightarrow> forwardAll msg cs W
         | _ \<Rightarrow> W)
      else W)"
| "forwardAll msg [] W = W"
| "forwardAll msg (c # cs) W =
     forwardAll msg cs (processMessage msg c (record_event (Sent (widgetOf c) (fst msg) (snd msg)) W))"
| "forwardShown msg [] W = W"
| "forwardShown msg (c # cs) W =
     forwardShown msg cs
       (if \<not> isHidden_w W (widgetOf c)
        then processMessage msg c (record_event (Sent (widgetOf c) (fst msg) (snd msg)) W)
        else W)"

text \<open>\<open>sendMessage(handler, msg)\<close>: the message is delivered at once.\<close>

definition sendMessage :: "message \<Rightarrow> wtree \<Rightarrow> World \<Rightarrow> World" where
  "sendMessage msg t W = processMessage msg t (record_event (Sent (widgetOf t) (fst msg) (snd msg)) W)"

text \<open>
  A message sent to the parent of a widget is a \<open>ChildMessage\<close>.  \<open>processMessage\<close> passes it
  to the layout of the parent, which passes it to no child: the children of that layout do
  not matter.
\<close>

definition sendToParent :: "message \<Rightarrow> wref \<Rightarrow> World \<Rightarrow> World" where
  "sendToParent msg p W = sendMessage msg (WTree p []) W"

text \<open>\<open>Widget.contains\<close>: the loop follows the parent references and need not end.\<close>

partial_function (option) containsLoop :: "World \<Rightarrow> wref \<Rightarrow> wref option \<Rightarrow> bool option" where
  "containsLoop W this widget =
     (case widget of
        None \<Rightarrow> Some False
      | Some x \<Rightarrow> if x = this then Some True else containsLoop W this (parentOf W x))"

text \<open>
  The outcome of an operation that may raise: the store it leaves, and the error if it raised
  one.
\<close>

datatype outcome = Ok World | Raised error World

text \<open>
  The setter of \<open>parent\<close> after its two guards: the old parent is told, the reference is
  assigned, the new parent is told, and the widget itself is sent \<open>parent-changed\<close>.
\<close>

definition assignParent :: "wtree \<Rightarrow> wref option \<Rightarrow> World \<Rightarrow> World" where
  "assignParent t value W =
     (let this = widgetOf t;
          W1 = (case parentOf W this of
                  None \<Rightarrow> W
                | Some old \<Rightarrow>
                    if \<not> isDisposed W old then sendToParent (ChildRemoved, Some this) old W
                    else W);
          W2 = record_event (ParentSet this value)
                 (updWidget this (\<lambda>x. x\<lparr>parent := value\<rparr>) W1);
          W3 = (case parentOf W2 this of
                  None \<Rightarrow> W2
                | Some new \<Rightarrow>
                    if \<not> isDisposed W2 new then sendToParent (ChildAdded, Some this) new W2
                    else W2)
      in sendMessage (ParentChanged, None) t W3)"

text \<open>
  Set the parent of the widget.  \<open>None\<close> stands for a call that does not return, the loop of
  \<open>contains\<close> running forever.
\<close>

definition setParent :: "wtree \<Rightarrow> wref option \<Rightarrow> World \<Rightarrow> outcome option" where
  "setParent t value W =
     (if parentOf W (widgetOf t) = value then Some (Ok W)
      else
        (case value of
           None \<Rightarrow> Some (Ok (assignParent t value W))
         | Some v \<Rightarrow>
             (case containsLoop W (widgetOf t) (Some v) of
                None \<Rightarrow> None
              | Some True \<Rightarrow> Some (Raised InvalidParent W)
              | Some False \<Rightarrow> Some (Ok (assignParent t value W)))))"

text \<open>Show the widget and make it visible to its parent widget.\<close>

definition show_w :: "wtree \<Rightarrow> World \<Rightarrow> World" where
  "show_w t W =
     (let this = widgetOf t in
      if \<not> isHidden_w W this then W
      else
        (let W1 = updWidget this (\<lambda>x. x\<lparr>hiddenStyle := False\<rparr>) (clearFlagOf this IsHidden W);
             W2 = (if isAttached W1 this \<and> parentVisible W1 this
                   then sendMessage (AfterShow, None) t W1 else W1)
         in case parentOf W2 this of
              None \<Rightarrow> W2
            | Some p \<Rightarrow> sendToParent (ChildShown, Some this) p W2))"

text \<open>Hide the widget and make it hidden to its parent widget.\<close>

definition hide_w :: "wtree \<Rightarrow> World \<Rightarrow> World" where
  "hide_w t W =
     (let this = widgetOf t in
      if isHidden_w W this then W
      else
        (let W1 = (if isAttached W this \<and> parentVisible W this
                   then sendMessage (BeforeHide, None) t W else W);
             W2 = updWidget this (\<lambda>x. x\<lparr>hiddenStyle := True\<rparr>) (setFlagOf this IsHidden W1)
         in case parentOf W2 this of
              None \<Rightarrow> W2
            | Some p \<Rightarrow> sendToParent (ChildHidden, Some this) p W2))"

text \<open>
  \<open>Widget.attach(widget, host)\<close>; of the host it matters only whether \<open>document.body\<close>
  contains it.
\<close>

definition attach :: "wtree \<Rightarrow> bool \<Rightarrow> World \<Rightarrow> outcome" where
  "attach t hostInDocument W =
     (let widget = widgetOf t in
      if parentOf W widget \<noteq> None then Raised CannotAttachChild W
      else if isAttached W widget \<or> inDocument (store W widget) then Raised AlreadyAttached W
      else if \<not> hostInDocument then Raised HostNotAttached W
      else Ok (sendMessage (AfterAttach, None) t
                 (updWidget widget (\<lambda>x. x\<lparr>inDocument := True\<rparr>) W)))"

text \<open>\<open>Widget.detach(widget)\<close>\<close>

definition detach :: "wtree \<Rightarrow> World \<Rightarrow> outcome" where
  "detach t W =
     (let widget = widgetOf t in
      if parentOf W widget \<noteq> None then Raised CannotDetachChild W
      else if \<not> isAttached W widget \<or> \<not> inDocument (store W widget) then Raised NotAttached W
      else Ok (updWidget widget (\<lambda>x. x\<lparr>inDocument := False\<rparr>)
                 (sendMessage (BeforeDetach, None) t W)))"

text \<open>
  The step of \<open>dispose\<close> that removes or detaches the widget if necessary:
  \<open>if (this.parent) { this.parent = null; } else if (this.isAttached) { Widget.detach(this); }\<close>.
  The value assigned is \<open>null\<close> and the parent is not, so both guards of the setter fail.
\<close>

definition unparent :: "wtree \<Rightarrow> World \<Rightarrow> outcome" where
  "unparent t W =
     (if parentOf W (widgetOf t) \<noteq> None then Ok (assignParent t None W)
      else if isAttached W (widgetOf t) then detach t W
      else Ok W)"

text \<open>
  The last steps of \<open>dispose\<close>: the attached data of the widget is cleared
  (\<open>clearSignalData\<close>, \<open>clearMessageData\<close>, \<open>clearPropertyData\<close>), and so is the reference to
  the DOM node.
\<close>

definition clearData :: "wref \<Rightarrow> World \<Rightarrow> World" where
  "clearData this W =
     updWidget this
       (\<lambda>x. x\<lparr>signalData := False, messageData := False, propertyData := False,
               node := False\<rparr>) W"

text \<open>
  Dispose of the widget and its descendant widgets.

  Modelled from the spec: \<open>Layout.dispose\<close> is not among the sources.  Disposing of a layout
  disposes of its children, in order; \<open>disposeAll\<close> is this loop, and it stops at the first
  child whose disposal raises.
\<close>

fun dispose :: "wtree \<Rightarrow> World \<Rightarrow> outcome"
  and disposeAll :: "wtree list \<Rightarrow> World \<Rightarrow> outcome" where
  "dispose (WTree this cs) W =
     (if isDisposed W this then Ok W
      else
        (case unparent (WTree this cs)
                (record_event (DisposedSignal this) (setFlagOf this IsDisposed W)) of
           Raised e W2 \<Rightarrow> Raised e W2
         | Ok W2 \<Rightarrow>
             if layout (store W2 this) then
               (case disposeAll cs W2 of
                  Raised e W3 \<Rightarrow> Raised e W3
                | Ok W3 \<Rightarrow>
                    Ok (clearData this
                          (updWidget this (\<lambda>x. x\<lparr>layout := False\<rparr>)
                             (record_event (LayoutDisposed this) W3))))
             else Ok (clearData this W2)))"
| "disposeAll [] W = Ok W"
| "disposeAll (c # cs) W =
     (case dispose c W of
        Raised e W' \<Rightarrow> Raised e W'
      | Ok W' \<Rightarrow> disposeAll cs W')"

text \<open>The position of the bit of a flag: \<open>flagValue flag = 2 ^ flagIndex flag\<close>.\<close>

fun flagIndex :: "WidgetFlag \<Rightarrow> nat" where
  "flagIndex IsDisposed = 0"
| "flagIndex IsAttached = 1"
| "flagIndex IsHidden = 2"
| "flagIndex IsVisible = 3"
| "flagIndex DisallowLayout = 4"

section \<open>Auxiliary notions for the widget tree\<close>

text \<open>
  \<open>ancestorOrSelf W x a\<close>: following the parent references from \<open>x\<close> one meets \<open>a\<close>; that is,
  \<open>x\<close> is \<open>a\<close> or a descendant of \<open>a\<close>.
\<close>

inductive ancestorOrSelf :: "World \<Rightarrow> wref \<Rightarrow> wref \<Rightarrow> bool" for W where
  self: "ancestorOrSelf W x x"
| step: "parentOf W x = Some p \<Longrightarrow> ancestorOrSelf W p a \<Longrightarrow> ancestorOrSelf W x a"

text \<open>
  \<open>endsWithout W this x\<close>: following the parent references from \<open>x\<close> one comes to a widget
  without a parent, and does not meet \<open>this\<close> on the way.
\<close>

inductive endsWithout :: "World \<Rightarrow> wref \<Rightarrow> wref \<Rightarrow> bool" for W this where
  top: "x \<noteq> this \<Longrightarrow> parentOf W x = None \<Longrightarrow> endsWithout W this x"
| up: "x \<noteq> this \<Longrightarrow> parentOf W x = Some p \<Longrightarrow> endsWithout W this p \<Longrightarrow> endsWithout W this x"

text \<open>The messages the setter of \<open>parent\<close> sends to the old and to the new parent.\<close>

definition removedNotice :: "World \<Rightarrow> wref \<Rightarrow> event list" where
  "removedNotice W this =
     (case parentOf W this of
        None \<Rightarrow> []
      | Some old \<Rightarrow> if isDisposed W old then [] else [Sent old ChildRemoved (Some this)])"

definition addedNotice :: "World \<Rightarrow> wref \<Rightarrow> wref option \<Rightarrow> event list" where
  "addedNotice W this value =
     (case value of
        None \<Rightarrow> []
      | Some new \<Rightarrow> if isDisposed W new then [] else [Sent new ChildAdded (Some this)])"

text \<open>A widget as its constructor leaves it, and a store of such widgets.\<close>

definition freshWidget :: Widget where
  "freshWidget = \<lparr>flags = 0, node = True, layout = False, parent = None, hiddenStyle = False,
     signalData = True, messageData = True, propertyData = True, inDocument = False\<rparr>"

definition freshWorld :: World where
  "freshWorld = \<lparr>store = (\<lambda>w. freshWidget), trace = []\<rparr>"

text \<open>
  A chain of three widgets: widget 0 has a layout with the child 1, whose layout has the
  child 2.
\<close>

definition chainTree :: wtree where
  "chainTree = WTree 0 [WTree 1 [WTree 2 []]]"

definition chainWorld :: World where
  "chainWorld =
     \<lparr>store = (\<lambda>w. freshWidget)
        (0 := freshWidget\<lparr>layout := True\<rparr>,
         1 := freshWidget\<lparr>layout := True, parent := Some 0\<rparr>,
         2 := freshWidget\<lparr>parent := Some 1\<rparr>),
      trace = []\<rparr>"




text \<open>
  The writes of \<open>dispose\<close> after the children of the layout are disposed of: the layout is
  disposed of and its reference cleared, then the attached data and the node reference.
\<close>

definition finish :: "wref \<Rightarrow> World \<Rightarrow> World" where
  "finish w W = clearData w (updWidget w (\<lambda>x. x\<lparr>layout := False\<rparr>)
     (record_event (LayoutDisposed w) W))"

text \<open>Two stores that differ in the flags \<open>IsVisible\<close> and \<open>IsAttached\<close> of their widgets at most.\<close>

definition lifecycleOnly :: "World \<Rightarrow> World \<Rightarrow> bool" where
  "lifecycleOnly W W' =
     (\<forall>x. store W' x = (store W x)\<lparr>flags := flags (store W' x)\<rparr>
        \<and> (\<forall>f. f \<noteq> IsVisible \<and> f \<noteq> IsAttached \<longrightarrow>
              testFlag (flags (store W' x)) f = testFlag (flags (store W x)) f))"

text \<open>
  \<open>W'\<close> comes from \<open>W\<close> by changing only widgets that were not disposed and now are, and
  have no parent.
\<close>

definition onlyDisposals :: "World \<Rightarrow> World \<Rightarrow> bool" where
  "onlyDisposals W W' =
     (\<forall>x. store W' x = store W x
        \<or> (\<not> isDisposed W x \<and> isDisposed W' x \<and> parentOf W' x = None))"



section \<open>Auxiliary notions for the visibility of a widget tree\<close>

text \<open>The widgets of a tree, and its subtrees.\<close>

fun ids :: "wtree \<Rightarrow> wref list" where
  "ids (WTree w cs) = w # concat (map ids cs)"

fun subtrees :: "wtree \<Rightarrow> wtree set" where
  "subtrees (WTree w cs) = insert (WTree w cs) (\<Union>c \<in> set cs. subtrees c)"

text \<open>
  \<open>linked t W\<close>: in the store \<open>W\<close> the widgets of \<open>t\<close> are linked as the tree says: a widget
  with children has a layout, and the widget is the parent of each child.
\<close>

fun linked :: "wtree \<Rightarrow> World \<Rightarrow> bool" where
  "linked (WTree w cs) W =
     ((cs \<noteq> [] \<longrightarrow> layout (store W w))
      \<and> (\<forall>c \<in> set cs. parentOf W (widgetOf c) = Some w \<and> linked c W))"

text \<open>
  \<open>consistent att pv t W\<close>: every widget of \<open>t\<close> is attached if and only if \<open>att\<close> holds, and
  it is visible if and only if it is attached, not explicitly hidden, and the widget above
  it is visible; above the root of \<open>t\<close> this is the case if \<open>pv\<close> holds.
\<close>

fun consistent :: "bool \<Rightarrow> bool \<Rightarrow> wtree \<Rightarrow> World \<Rightarrow> bool" where
  "consistent att pv (WTree w cs) W =
     (isAttached W w = att
      \<and> (isVisible W w \<longleftrightarrow> att \<and> \<not> isHidden_w W w \<and> pv)
      \<and> (\<forall>c \<in> set cs. consistent att (isVisible W w) c W))"

text \<open>
  The stores reached from a detached tree of widgets by \<open>Widget.attach\<close> and \<open>Widget.detach\<close>
  on its root and by \<open>show\<close> and \<open>hide\<close> on any of its widgets.
\<close>

inductive lifecycleReach :: "wtree \<Rightarrow> World \<Rightarrow> bool" for T where
  start: "distinct (ids T) \<Longrightarrow> linked T W \<Longrightarrow> parentOf W (widgetOf T) = None \<Longrightarrow>
      consistent False True T W \<Longrightarrow> lifecycleReach T W"
| attached: "lifecycleReach T W \<Longrightarrow> attach T h W = Ok W' \<Longrightarrow> lifecycleReach T W'"
| detached: "lifecycleReach T W \<Longrightarrow> detach T W = Ok W' \<Longrightarrow> lifecycleReach T W'"
| shown: "lifecycleReach T W \<Longrightarrow> s \<in> subtrees T \<Longrightarrow> lifecycleReach T (show_w s W)"
| hidden: "lifecycleReach T W \<Longrightarrow> s \<in> subtrees T \<Longrightarrow> lifecycleReach T (hide_w s W)"

text \<open>
  The stores reached from fresh widgets by the public operations of the widget class:
  \<open>Widget.attach\<close>, \<open>Widget.detach\<close>, \<open>show\<close>, \<open>hide\<close>, the setter of \<open>parent\<close> and
  \<open>dispose\<close>, and, if \<open>raw\<close> holds, the delivery of any message to any widget.
\<close>

inductive publicReach :: "bool \<Rightarrow> World \<Rightarrow> bool" for raw where
  fresh: "publicReach raw freshWorld"
| attached: "publicReach raw W \<Longrightarrow> attach t h W = Ok W' \<Longrightarrow> publicReach raw W'"
| detached: "publicReach raw W \<Longrightarrow> detach t W = Ok W' \<Longrightarrow> publicReach raw W'"
| shown: "publicReach raw W \<Longrightarrow> publicReach raw (show_w t W)"
| hidden: "publicReach raw W \<Longrightarrow> publicReach raw (hide_w t W)"
| reparented: "publicReach raw W \<Longrightarrow> setParent t v W = Some (Ok W') \<Longrightarrow> publicReach raw W'"
| disposed: "publicReach raw W \<Longrightarrow> dispose t W = Ok W' \<Longrightarrow> publicReach raw W'"
| delivered: "raw \<Longrightarrow> publicReach raw W \<Longrightarrow> publicReach raw (sendMessage msg t W)"

text \<open>
  The invariant of the specification: a visible widget is attached, is not explicitly
  hidden, and has no explicitly hidden ancestor.
\<close>

definition visibleInvariant :: "World \<Rightarrow> bool" where
  "visibleInvariant W =
     (\<forall>x. isVisible W x \<longrightarrow>
        isAttached W x \<and> \<not> isHidden_w W x
        \<and> (\<forall>a. ancestorOrSelf W x a \<longrightarrow> \<not> isHidden_w W a))"

text \<open>The chain of three widgets after \<open>Widget.attach\<close> of its root.\<close>

definition attachedChain :: World where
  "attachedChain = sendMessage (AfterAttach, None) chainTree
     (updWidget 0 (\<lambda>x. x\<lparr>inDocument := True\<rparr>) chainWorld)"

text \<open>
  Three stores of fresh widgets without layouts: \<open>after-show\<close> is delivered to widget 0;
  widget 0 is attached as a root; and then widget 1 is hidden and made the parent of
  widget 0.
\<close>

definition rawShown :: World where
  "rawShown = sendMessage (AfterShow, None) (WTree 0 []) freshWorld"

definition rootAttached :: World where
  "rootAttached = sendMessage (AfterAttach, None) (WTree 0 [])
     (updWidget 0 (\<lambda>x. x\<lparr>inDocument := True\<rparr>) freshWorld)"

definition adoptedWorld :: World where
  "adoptedWorld = assignParent (WTree 0 []) (Some 1) (hide_w (WTree 1 []) rootAttached)"

section \<open>Properties of the interactive adjuster\<close>


subsection \<open>Arithmetic with \<open>Infinity\<close>\<close>

lemma ext_add_assoc: "ext_add (ext_add a b) c = ext_add a (ext_add b c)"
  by (cases a; cases b; cases c) simp_all


lemma ext_add_zero [simp]: "ext_add (Num 0) a = a" "ext_add a (Num 0) = a"
  by (cases a; simp)+





subsection \<open>The loops as list functions\<close>

lemma vector_at_in: "0 \<le> i \<Longrightarrow> i < int (length xs) \<Longrightarrow> vector_at xs i = Some (xs ! nat i)"
  by (simp add: vector_at_def)

lemma limitLoop_sum:
  "0 \<le> i \<Longrightarrow> hi \<le> int (length ss) \<Longrightarrow>
   limitLoop f ss i hi acc =
     Inr (ext_add acc (ext_sum (map f (drop (nat i) (take (nat hi) ss)))))"
proof (induction f ss i hi acc rule: limitLoop.induct)
  case (1 f ss i hi acc)
  show ?case
  proof (cases "i < hi")
    case True
    with "1.prems" have at: "vector_at ss i = Some (ss ! nat i)"
      by (simp add: vector_at_in)
    from True "1.prems" have lt: "nat i < length (take (nat hi) ss)"
      by simp
    have dr: "drop (nat i) (take (nat hi) ss) =
        ss ! nat i # drop (nat (i + 1)) (take (nat hi) ss)"
      using Cons_nth_drop_Suc [OF lt] lt "1.prems" by (simp add: nat_add_distrib)
    have "limitLoop f ss i hi acc =
        limitLoop f ss (i + 1) hi (ext_add acc (f (ss ! nat i)))"
      using True at by (subst limitLoop.simps) simp
    also have "\<dots> = Inr (ext_add (ext_add acc (f (ss ! nat i)))
        (ext_sum (map f (drop (nat (i + 1)) (take (nat hi) ss)))))"
      using "1.IH" [OF True at] "1.prems" by simp
    finally show ?thesis
      by (simp add: dr ext_add_assoc)
  next
    case False
    then show ?thesis
      using "1.prems" by (subst limitLoop.simps) simp
  qed
qed

lemma absorb_nonpos [simp]: "amt \<le> 0 \<Longrightarrow> absorb step amt ss = ss"
  by (cases ss) simp_all

lemma length_absorb [simp]: "length (absorb step amt ss) = length ss"
  by (induction ss arbitrary: amt) simp_all

lemma walkUp_absorb:
  "0 \<le> i \<Longrightarrow> n = int (length ss) \<Longrightarrow>
   walkUp step ss i n amt =
     Inr (take (nat i) ss @ absorb step amt (drop (nat i) ss))"
proof (induction step ss i n amt rule: walkUp.induct)
  case (1 step ss i n amt)
  show ?case
  proof (cases "i < n \<and> amt > 0")
    case True
    with "1.prems" have at: "vector_at ss i = Some (ss ! nat i)"
      by (simp add: vector_at_in)
    from True "1.prems" have lt: "nat i < length ss"
      by linarith
    let ?s = "ss ! nat i"
    let ?zs = "ss[nat i := fst (step ?s amt)]"
    have dr: "drop (nat i) ss = ?s # drop (Suc (nat i)) ss"
      using Cons_nth_drop_Suc [OF lt] by simp
    have nat_suc: "nat (i + 1) = Suc (nat i)"
      using "1.prems" by (simp add: nat_add_distrib)
    have "walkUp step ss i n amt = walkUp step ?zs (i + 1) n (snd (step ?s amt))"
      using True at by (subst walkUp.simps) simp
    also have "\<dots> = Inr (take (nat (i + 1)) ?zs @
        absorb step (snd (step ?s amt)) (drop (nat (i + 1)) ?zs))"
      using "1.IH" [OF True at] "1.prems" by simp
    also have "take (nat (i + 1)) ?zs = take (nat i) ss @ [fst (step ?s amt)]"
      using lt by (simp add: nat_suc take_Suc_conv_app_nth)
    also have "drop (nat (i + 1)) ?zs = drop (Suc (nat i)) ss"
      by (simp add: nat_suc)
    finally show ?thesis
      using True by (simp add: dr)
  next
    case False
    have "absorb step amt (drop (nat i) ss) = drop (nat i) ss"
    proof (cases "amt > 0")
      case True
      with False "1.prems" have "drop (nat i) ss = []" by simp
      then show ?thesis by simp
    next
      case False
      then show ?thesis by simp
    qed
    moreover have "walkUp step ss i n amt = Inr ss"
      using False by (subst walkUp.simps) auto
    ultimately show ?thesis
      by simp
  qed
qed

lemma walkDown_absorb:
  "- 1 \<le> i \<Longrightarrow> i < int (length ss) \<Longrightarrow>
   walkDown step ss i amt =
     Inr (rev (absorb step amt (rev (take (nat (i + 1)) ss))) @ drop (nat (i + 1)) ss)"
proof (induction step ss i amt rule: walkDown.induct)
  case (1 step ss i amt)
  show ?case
  proof (cases "i \<ge> 0 \<and> amt > 0")
    case True
    with "1.prems" have at: "vector_at ss i = Some (ss ! nat i)"
      by (simp add: vector_at_in)
    from True "1.prems" have lt: "nat i < length ss"
      by linarith
    let ?s = "ss ! nat i"
    let ?zs = "ss[nat i := fst (step ?s amt)]"
    have nat_suc: "nat (i + 1) = Suc (nat i)" "nat (i - 1 + 1) = nat i"
      using True by (simp_all add: nat_add_distrib)
    have "walkDown step ss i amt = walkDown step ?zs (i - 1) (snd (step ?s amt))"
      using True at by (subst walkDown.simps) simp
    also have "\<dots> = Inr (rev (absorb step (snd (step ?s amt)) (rev (take (nat i) ?zs))) @
        drop (nat i) ?zs)"
      using "1.IH" [OF True at] "1.prems" True by (simp add: nat_suc)
    also have "take (nat i) ?zs = take (nat i) ss"
      by simp
    also have "drop (nat i) ?zs = fst (step ?s amt) # drop (Suc (nat i)) ss"
      using lt by (simp add: drop_update_swap [symmetric] Cons_nth_drop_Suc [symmetric] upd_conv_take_nth_drop)
    finally show ?thesis
      using True lt by (simp add: nat_suc take_Suc_conv_app_nth)
  next
    case False
    have "absorb step amt (rev (take (nat (i + 1)) ss)) = rev (take (nat (i + 1)) ss)"
    proof (cases "amt > 0")
      case True
      with False "1.prems" have "i = - 1" by simp
      then show ?thesis by simp
    next
      case False
      then show ?thesis by simp
    qed
    moreover have "walkDown step ss i amt = Inr ss"
      using False by (subst walkDown.simps) auto
    ultimately show ?thesis
      by simp
  qed
qed

text \<open>The two adjusters, for a boundary index inside the vector.\<close>

lemma growSizer_absorb:
  assumes "0 \<le> index" and "index < int (length ss)"
  shows "growSizer ss index delta =
    Inr (rev (absorb growStep
               (min3 delta (ext_sum (map headroom (take (Suc (nat index)) ss)))
                  (ext_sum (map slack (drop (Suc (nat index)) ss))))
               (rev (take (Suc (nat index)) ss)))
         @ absorb shrinkStep
               (min3 delta (ext_sum (map headroom (take (Suc (nat index)) ss)))
                  (ext_sum (map slack (drop (Suc (nat index)) ss))))
               (drop (Suc (nat index)) ss))"
proof -
  let ?k = "Suc (nat index)"
  have k: "nat (index + 1) = ?k"
    using assms by (simp add: nat_add_distrib)
  have kle: "?k \<le> length ss"
    using assms by linarith
  have g: "limitLoop headroom ss 0 (index + 1) (Num 0) = Inr (ext_sum (map headroom (take ?k ss)))"
    using assms by (subst limitLoop_sum) (simp_all add: k)
  have s: "limitLoop slack ss (index + 1) (int (length ss)) (Num 0) =
      Inr (ext_sum (map slack (drop ?k ss)))"
    using assms by (subst limitLoop_sum) (simp_all add: k)
  define d where "d = min3 delta (ext_sum (map headroom (take ?k ss)))
      (ext_sum (map slack (drop ?k ss)))"
  define left where "left = rev (absorb growStep d (rev (take ?k ss)))"
  have len: "length left = ?k"
    using kle by (simp add: left_def)
  have down: "walkDown growStep ss index d = Inr (left @ drop ?k ss)"
    using assms by (subst walkDown_absorb) (simp_all add: k left_def)
  have up: "walkUp shrinkStep (left @ drop ?k ss) (index + 1) (int (length (left @ drop ?k ss))) d =
      Inr (left @ absorb shrinkStep d (drop ?k ss))"
    using assms len by (subst walkUp_absorb) (simp_all add: k)
  have "growSizer ss index delta =
      (case walkDown growStep ss index d of
         Inl e \<Rightarrow> Inl e
       | Inr ss' \<Rightarrow> walkUp shrinkStep ss' (index + 1) (int (length ss')) d)"
    unfolding d_def by (simp add: growSizer_def g s Let_def)
  also have "\<dots> = Inr (left @ absorb shrinkStep d (drop ?k ss))"
    by (simp only: down sum.case up)
  finally show ?thesis
    by (simp add: d_def left_def)
qed

lemma shrinkSizer_absorb:
  assumes "0 \<le> index" and "index < int (length ss)"
  shows "shrinkSizer ss index delta =
    Inr (rev (absorb shrinkStep
               (min3 delta (ext_sum (map headroom (drop (Suc (nat index)) ss)))
                  (ext_sum (map slack (take (Suc (nat index)) ss))))
               (rev (take (Suc (nat index)) ss)))
         @ absorb growStep
               (min3 delta (ext_sum (map headroom (drop (Suc (nat index)) ss)))
                  (ext_sum (map slack (take (Suc (nat index)) ss))))
               (drop (Suc (nat index)) ss))"
proof -
  let ?k = "Suc (nat index)"
  have k: "nat (index + 1) = ?k"
    using assms by (simp add: nat_add_distrib)
  have kle: "?k \<le> length ss"
    using assms by linarith
  have g: "limitLoop headroom ss (index + 1) (int (length ss)) (Num 0) =
      Inr (ext_sum (map headroom (drop ?k ss)))"
    using assms by (subst limitLoop_sum) (simp_all add: k)
  have s: "limitLoop slack ss 0 (index + 1) (Num 0) = Inr (ext_sum (map slack (take ?k ss)))"
    using assms by (subst limitLoop_sum) (simp_all add: k)
  define d where "d = min3 delta (ext_sum (map headroom (drop ?k ss)))
      (ext_sum (map slack (take ?k ss)))"
  define right where "right = absorb growStep d (drop ?k ss)"
  have up: "walkUp growStep ss (index + 1) (int (length ss)) d = Inr (take ?k ss @ right)"
    using assms by (subst walkUp_absorb) (simp_all add: k right_def)
  have down: "walkDown shrinkStep (take ?k ss @ right) index d =
      Inr (rev (absorb shrinkStep d (rev (take ?k ss))) @ right)"
    using assms kle by (subst walkDown_absorb) (simp_all add: k right_def)
  have "shrinkSizer ss index delta =
      (case walkUp growStep ss (index + 1) (int (length ss)) d of
         Inl e \<Rightarrow> Inl e
       | Inr ss' \<Rightarrow> walkDown shrinkStep ss' index d)"
    unfolding d_def by (simp add: shrinkSizer_def g s Let_def)
  also have "\<dots> = Inr (rev (absorb shrinkStep d (rev (take ?k ss))) @ right)"
    by (simp add: down up)
  finally show ?thesis
    by (simp add: d_def right_def)
qed



subsection \<open>The loop bodies\<close>






lemma growStep_min:
  "growStep s a = (s\<lparr>sizeHint := cur_size s + ext_min a (ext_sub (maxSize s) (cur_size s))\<rparr>,
     a - ext_min a (ext_sub (maxSize s) (cur_size s)))"
  by (cases "maxSize s") (simp_all add: growStep_def headroom_def min_def)

lemma shrinkStep_min:
  "shrinkStep s a = (s\<lparr>sizeHint := cur_size s - min a (cur_size s - minSize s)\<rparr>,
     a - min a (cur_size s - minSize s))"
  by (simp add: shrinkStep_def Let_def min_def)

lemma absorb_growStep: "absorb growStep amt ss = cascade_grow amt ss"
  by (induction ss arbitrary: amt) (simp_all add: growStep_min)

lemma absorb_shrinkStep: "absorb shrinkStep amt ss = cascade_shrink amt ss"
  by (induction ss arbitrary: amt) (simp_all add: shrinkStep_min)

lemma headroom_eta: "headroom = (\<lambda>s. ext_sub (maxSize s) (cur_size s))"
  by (rule ext) (simp add: headroom_def)

lemma slack_eta: "slack = (\<lambda>s. Num (cur_size s - minSize s))"
  by (rule ext) (simp add: slack_def)



subsection \<open>Frame: only the size hint is written\<close>

lemma onlyHint_refl [simp]: "onlyHint s s"
  by (simp add: onlyHint_def)

lemma onlyHint_trans: "onlyHint a b \<Longrightarrow> onlyHint b c \<Longrightarrow> onlyHint a c"
  by (simp add: onlyHint_def)

lemma onlyHint_growStep [simp]: "onlyHint s (fst (growStep s a))"
  by (simp add: onlyHint_def growStep_min)

lemma onlyHint_shrinkStep [simp]: "onlyHint s (fst (shrinkStep s a))"
  by (simp add: onlyHint_def shrinkStep_min)

lemma list_all2_onlyHint_refl [simp]: "list_all2 onlyHint ss ss"
  by (simp add: list_all2_refl)

lemma list_all2_onlyHint_trans:
  "list_all2 onlyHint xs ys \<Longrightarrow> list_all2 onlyHint ys zs \<Longrightarrow> list_all2 onlyHint xs zs"
  using list_all2_trans [of onlyHint onlyHint onlyHint xs ys zs] onlyHint_trans by blast

lemma list_all2_onlyHint_update:
  "i < length ss \<Longrightarrow> onlyHint (ss ! i) s' \<Longrightarrow> list_all2 onlyHint ss (ss[i := s'])"
  by (simp add: list_all2_conv_all_nth nth_list_update)

lemma list_all2_onlyHint_sizes:
  "list_all2 onlyHint ss ss' \<Longrightarrow> map cur_size ss' = map cur_size ss"
  by (induction rule: list_all2_induct) (simp_all add: onlyHint_def)



lemma vector_at_Some: "vector_at xs i = Some x \<Longrightarrow> nat i < length xs \<and> x = xs ! nat i"
  by (auto simp: vector_at_def split: if_splits)

lemma walkUp_onlyHint:
  "(\<And>s a. onlyHint s (fst (step s a))) \<Longrightarrow> walkUp step ss i n amt = Inr ss' \<Longrightarrow>
   list_all2 onlyHint ss ss'"
proof (induction step ss i n amt rule: walkUp.induct)
  case (1 step0 ss i n amt)
  note step0 = "1.prems"(1)
  show ?case
  proof (cases "i < n \<and> amt > 0")
    case False
    with "1.prems"(2) have "ss' = ss"
      by (subst (asm) walkUp.simps) auto
    then show ?thesis by simp
  next
    case True
    show ?thesis
    proof (cases "vector_at ss i")
      case None
      with True "1.prems"(2) show ?thesis
        by (subst (asm) walkUp.simps) simp
    next
      case (Some s)
      from vector_at_Some [OF Some] have lt: "nat i < length ss" and s: "s = ss ! nat i"
        by simp_all
      from True Some "1.prems"(2)
      have rec: "walkUp step0 (ss[nat i := fst (step0 s amt)]) (i + 1) n (snd (step0 s amt)) = Inr ss'"
        by (subst (asm) walkUp.simps) simp
      have a: "list_all2 onlyHint ss (ss[nat i := fst (step0 s amt)])"
        using lt s step0 by (simp add: list_all2_onlyHint_update)
      have b: "list_all2 onlyHint (ss[nat i := fst (step0 s amt)]) ss'"
        using "1.IH" [OF True Some step0 rec] .
      from a b show ?thesis
        by (rule list_all2_onlyHint_trans)
    qed
  qed
qed

lemma walkDown_onlyHint:
  "(\<And>s a. onlyHint s (fst (step s a))) \<Longrightarrow> walkDown step ss i amt = Inr ss' \<Longrightarrow>
   list_all2 onlyHint ss ss'"
proof (induction step ss i amt rule: walkDown.induct)
  case (1 step0 ss i amt)
  note step0 = "1.prems"(1)
  show ?case
  proof (cases "i \<ge> 0 \<and> amt > 0")
    case False
    with "1.prems"(2) have "ss' = ss"
      by (subst (asm) walkDown.simps) auto
    then show ?thesis by simp
  next
    case True
    show ?thesis
    proof (cases "vector_at ss i")
      case None
      with True "1.prems"(2) show ?thesis
        by (subst (asm) walkDown.simps) simp
    next
      case (Some s)
      from vector_at_Some [OF Some] have lt: "nat i < length ss" and s: "s = ss ! nat i"
        by simp_all
      from True Some "1.prems"(2)
      have rec: "walkDown step0 (ss[nat i := fst (step0 s amt)]) (i - 1) (snd (step0 s amt)) = Inr ss'"
        by (subst (asm) walkDown.simps) simp
      have a: "list_all2 onlyHint ss (ss[nat i := fst (step0 s amt)])"
        using lt s step0 by (simp add: list_all2_onlyHint_update)
      have b: "list_all2 onlyHint (ss[nat i := fst (step0 s amt)]) ss'"
        using "1.IH" [OF True Some step0 rec] .
      from a b show ?thesis
        by (rule list_all2_onlyHint_trans)
    qed
  qed
qed

lemma growSizer_onlyHint:
  assumes "growSizer ss index delta = Inr ss'"
  shows "list_all2 onlyHint ss ss'"
proof -
  from assms obtain d ss1 where
    down: "walkDown growStep ss index d = Inr ss1" and
    up: "walkUp shrinkStep ss1 (index + 1) (int (length ss1)) d = Inr ss'"
    unfolding growSizer_def Let_def by (simp split: sum.splits)
  have "list_all2 onlyHint ss ss1"
    using down by (rule walkDown_onlyHint [rotated]) simp
  moreover have "list_all2 onlyHint ss1 ss'"
    using up by (rule walkUp_onlyHint [rotated]) simp
  ultimately show ?thesis
    by (rule list_all2_onlyHint_trans)
qed

lemma shrinkSizer_onlyHint:
  assumes "shrinkSizer ss index delta = Inr ss'"
  shows "list_all2 onlyHint ss ss'"
proof -
  from assms obtain d ss1 where
    up: "walkUp growStep ss (index + 1) (int (length ss)) d = Inr ss1" and
    down: "walkDown shrinkStep ss1 index d = Inr ss'"
    unfolding shrinkSizer_def Let_def by (simp split: sum.splits)
  have "list_all2 onlyHint ss ss1"
    using up by (rule walkUp_onlyHint [rotated]) simp
  moreover have "list_all2 onlyHint ss1 ss'"
    using down by (rule walkDown_onlyHint [rotated]) simp
  ultimately show ?thesis
    by (rule list_all2_onlyHint_trans)
qed

lemma pinHints_onlyHint: "list_all2 onlyHint ss (pinHints ss)"
  by (simp add: pinHints_def list_all2_conv_all_nth onlyHint_def)

lemma sizers_requestUpdate [simp]: "sizers (requestUpdate L) = sizers L"
  by (simp add: requestUpdate_def)

lemma setHandlePosition_onlyHint:
  assumes "setHandlePosition L index position = Inr L'"
  shows "list_all2 onlyHint (sizers L) (sizers L')"
proof (cases "vector_at (handles L) index")
  case None
  with assms show ?thesis by (simp add: setHandlePosition_def)
next
  case (Some h)
  show ?thesis
  proof (cases "hiddenClass h \<or> handleDelta L h position = 0")
    case True
    with Some assms have "L' = L"
      by (auto simp: setHandlePosition_def split: if_splits)
    then show ?thesis by simp
  next
    case False
    from Some False assms obtain ss' where
      adj: "(if handleDelta L h position > 0
             then growSizer (pinHints (sizers L)) index (handleDelta L h position)
             else shrinkSizer (pinHints (sizers L)) index (- handleDelta L h position)) = Inr ss'"
      and L': "L' = requestUpdate (L\<lparr>sizers := ss'\<rparr>)"
      by (auto simp: setHandlePosition_def split: sum.splits)
    from adj have "list_all2 onlyHint (pinHints (sizers L)) ss'"
      by (auto split: if_splits dest: growSizer_onlyHint shrinkSizer_onlyHint)
    with pinHints_onlyHint [of "sizers L"] have "list_all2 onlyHint (sizers L) ss'"
      by (rule list_all2_onlyHint_trans)
    then show ?thesis
      by (simp add: L')
  qed
qed



subsection \<open>Conservation of the total\<close>




subsection \<open>The written hints stay within the limits\<close>












section \<open>The claims about the interactive adjuster\<close>

subsection \<open>Two evaluations\<close>

lemma growSizer_example:
  "growSizer [exampleSizer, exampleSizer] 0 1000 =
     Inr [exampleSizer\<lparr>sizeHint := 90\<rparr>, exampleSizer\<lparr>sizeHint := 10\<rparr>]"
  by (simp add: growSizer_absorb exampleSizer_def headroom_def slack_def min3_def
      growStep_def shrinkStep_def)

lemma setHandlePosition_example:
  "setHandlePosition exampleLayout 0 1050 =
     Inr (exampleLayout\<lparr>sizers := [exampleSizer\<lparr>sizeHint := 90\<rparr>, exampleSizer\<lparr>sizeHint := 10\<rparr>],
                         postedUpdates := 1\<rparr>)"
proof -
  have pin: "pinHints [exampleSizer, exampleSizer] = [exampleSizer, exampleSizer]"
    by (simp add: pinHints_def exampleSizer_def)
  show ?thesis
    by (simp add: setHandlePosition_def exampleLayout_def vector_at_def handleDelta_def pin
        growSizer_example requestUpdate_def)
qed

lemma pinHints_length [simp]: "length (pinHints ss) = length ss"
  by (simp add: pinHints_def)


subsection \<open>Conservation and limits\<close>



subsection \<open>The drag clamp example\<close>

text \<open>
  Claim C3, as stated, fails.  With limits \<open>[10, 100]\<close> and sizes \<open>[50, 50]\<close>, a move by 1000
  at boundary 0 is limited by what sizer 1 can give up, \<open>50 - 10 = 40\<close>: it does not bring
  sizer 0 to 100 and sizer 1 to 10, nor a total of 110, in the size hints or in the sizes.
\<close>

theorem drag_clamp_counterexample:
  "\<not> (\<exists>ss'. growSizer [exampleSizer, exampleSizer] 0 1000 = Inr ss' \<and>
         (map sizeHint ss' = [100, 10] \<or> map cur_size ss' = [100, 10] \<or>
          sum_list (map sizeHint ss') = 110 \<or> sum_list (map cur_size ss') = 110))"
  unfolding growSizer_example by (simp add: exampleSizer_def)

text \<open>
  Claim C3, amended.  The move asks for 90 (the size 50 plus the effective delta 40) for sizer
  0 and for the minimum 10 for sizer 1, within the limits and with the total 100 of the sizes
  before; the sizes themselves are still \<open>[50, 50]\<close>.
\<close>

theorem drag_clamp_amended:
  "map cur_size [exampleSizer, exampleSizer] = [50, 50]
   \<and> map minSize [exampleSizer, exampleSizer] = [10, 10]
   \<and> map maxSize [exampleSizer, exampleSizer] = [Num 100, Num 100]
   \<and> growSizer [exampleSizer, exampleSizer] 0 1000 =
       Inr [exampleSizer\<lparr>sizeHint := 90\<rparr>, exampleSizer\<lparr>sizeHint := 10\<rparr>]
   \<and> sum_list (map sizeHint [exampleSizer\<lparr>sizeHint := 90\<rparr>, exampleSizer\<lparr>sizeHint := 10\<rparr>]) = 100
   \<and> (\<exists>L'. setHandlePosition exampleLayout 0 1050 = Inr L' \<and>
         map sizeHint (sizers L') = [90, 10] \<and> sizes L' = [50, 50])"
  by (simp add: growSizer_example setHandlePosition_example sizes_def)
    (simp add: exampleSizer_def)

subsection \<open>The effective delta and the cascade\<close>

lemma cascade_forward_hints:
  "map sizeHint (spec_move_forward cascadeSizers (nat 1) 100) = [55, 70, 30, 45]"
  by (simp add: spec_move_forward_def spec_growLimit_def spec_shrinkLimit_def
      cascadeSizers_def min3_def Let_def)

lemma growSizer_cascade:
  "growSizer cascadeSizers 1 100 = Inr (spec_move_forward cascadeSizers (nat 1) 100)"
proof -
  have a: "0 \<le> (1::int)" and b: "1 < int (length cascadeSizers)"
    by (simp_all add: cascadeSizers_def)
  show ?thesis
    using growSizer_absorb [OF a b, of 100]
    by (simp add: spec_move_forward_def spec_growLimit_def
        spec_shrinkLimit_def Let_def absorb_growStep absorb_shrinkStep
        headroom_eta [symmetric] slack_eta [symmetric])
qed

text \<open>
  Claim C4.  For a boundary index inside the vector, \<open>growSizer\<close> is the forward move of the
  specification: the effective delta is \<open>min(delta, growLimit, shrinkLimit)\<close>, absorbed by the
  sizers up to the boundary walking backward and given up by the sizers after it walking
  forward, each one saturating before the overflow reaches the next; \<open>shrinkSizer\<close> is the
  mirror.
\<close>

theorem adjuster_refines_spec:
  assumes "0 \<le> index" and "index < int (length ss)"
  shows "growSizer ss index delta = Inr (spec_move_forward ss (nat index) delta)
    \<and> shrinkSizer ss index delta = Inr (spec_move_backward ss (nat index) delta)"
  using growSizer_absorb [OF assms, of delta] shrinkSizer_absorb [OF assms, of delta]
  by (simp add: spec_move_forward_def spec_move_backward_def spec_growLimit_def
      spec_shrinkLimit_def Let_def absorb_growStep absorb_shrinkStep
      headroom_eta [symmetric] slack_eta [symmetric])

theorem adjuster_refines_spec_witness:
  "0 \<le> (1::int) \<and> 1 < int (length cascadeSizers)
   \<and> min3 100 (spec_growLimit cascadeSizers 1) (spec_shrinkLimit cascadeSizers 1) = 25
   \<and> (\<exists>ss'. growSizer cascadeSizers 1 100 = Inr ss' \<and> map sizeHint ss' = [55, 70, 30, 45])
   \<and> (\<exists>ss'. shrinkSizer cascadeSizers 1 100 = Inr ss' \<and> map sizeHint ss' = [10, 10, 130, 50])"
proof -
  have a: "0 \<le> (1::int)"
    by simp
  have b: "1 < int (length cascadeSizers)"
    by (simp add: cascadeSizers_def)
  note r = adjuster_refines_spec [OF a b, of 100]
  have eff: "min3 100 (spec_growLimit cascadeSizers 1) (spec_shrinkLimit cascadeSizers 1) = 25"
    by (simp add: spec_growLimit_def spec_shrinkLimit_def cascadeSizers_def min3_def)
  have f: "map sizeHint (spec_move_forward cascadeSizers (nat 1) 100) = [55, 70, 30, 45]"
    by (simp add: spec_move_forward_def spec_growLimit_def spec_shrinkLimit_def
        cascadeSizers_def min3_def Let_def)
  have g: "map sizeHint (spec_move_backward cascadeSizers (nat 1) 100) = [10, 10, 130, 50]"
    by (simp add: spec_move_backward_def cascadeSizers_def min3_def Let_def)
  from a b eff f g r show ?thesis
    by simp
qed

subsection \<open>No-op calls\<close>

text \<open>
  Claim C9.  A call of \<open>setHandlePosition\<close> with a handle index outside the vector, or with a
  position that gives a delta of zero, returns the layout as it was: no sizer is modified and
  no update is posted.
\<close>

theorem setHandlePosition_noop:
  assumes "index < 0 \<or> int (length (handles L)) \<le> index
     \<or> handleDelta L (handles L ! nat index) position = 0"
  shows "setHandlePosition L index position = Inr L"
proof (cases "vector_at (handles L) index")
  case None
  then show ?thesis by (simp add: setHandlePosition_def)
next
  case (Some h)
  with assms vector_at_Some [OF Some] have "handleDelta L h position = 0"
    by (auto simp: vector_at_def split: if_splits)
  with Some show ?thesis
    by (simp add: setHandlePosition_def)
qed

theorem setHandlePosition_noop_witness:
  "int (length (handles exampleLayout)) \<le> 5
   \<and> setHandlePosition exampleLayout 5 70 = Inr exampleLayout
   \<and> handleDelta exampleLayout (handles exampleLayout ! nat 0) 50 = 0
   \<and> setHandlePosition exampleLayout 0 50 = Inr exampleLayout"
proof -
  have a: "int (length (handles exampleLayout)) \<le> 5"
    by (simp add: exampleLayout_def)
  have b: "handleDelta exampleLayout (handles exampleLayout ! nat 0) 50 = 0"
    by (simp add: exampleLayout_def handleDelta_def)
  from a b setHandlePosition_noop [of 5 exampleLayout 70] setHandlePosition_noop [of 0 exampleLayout 50]
  show ?thesis
    by simp
qed

subsection \<open>The frame of an adjustment\<close>

text \<open>
  Claim C10.  Whenever \<open>growSizer\<close>, \<open>shrinkSizer\<close> or \<open>setHandlePosition\<close> returns, the sizers
  differ from the ones before in their size hints at most; in particular \<open>sizes()\<close> returns
  the same sequence before and after.
\<close>

theorem adjuster_writes_only_hints:
  "(growSizer ss index delta = Inr ss' \<longrightarrow>
      map cur_size ss' = map cur_size ss \<and> list_all2 onlyHint ss ss')
   \<and> (shrinkSizer ss index delta = Inr ss' \<longrightarrow>
      map cur_size ss' = map cur_size ss \<and> list_all2 onlyHint ss ss')
   \<and> (setHandlePosition L handleIndex position = Inr L' \<longrightarrow>
      sizes L' = sizes L \<and> list_all2 onlyHint (sizers L) (sizers L'))"
  by (auto simp: sizes_def dest: growSizer_onlyHint shrinkSizer_onlyHint
      setHandlePosition_onlyHint list_all2_onlyHint_sizes)

theorem adjuster_writes_only_hints_witness:
  "(\<exists>ss'. growSizer cascadeSizers 1 100 = Inr ss' \<and> map cur_size ss' = map cur_size cascadeSizers
       \<and> map sizeHint ss' \<noteq> map sizeHint cascadeSizers)
   \<and> (\<exists>ss'. shrinkSizer cascadeSizers 1 100 = Inr ss' \<and> map cur_size ss' = map cur_size cascadeSizers)
   \<and> (\<exists>L'. setHandlePosition exampleLayout 0 1050 = Inr L' \<and> sizes L' = sizes exampleLayout
       \<and> L' \<noteq> exampleLayout)"
proof -
  have a: "0 \<le> (1::int)" and b: "1 < int (length cascadeSizers)"
    by (simp_all add: cascadeSizers_def)
  obtain g where g: "growSizer cascadeSizers 1 100 = Inr g"
    using growSizer_absorb [OF a b] by simp
  obtain s where s: "shrinkSizer cascadeSizers 1 100 = Inr s"
    using shrinkSizer_absorb [OF a b] by simp
  have "map sizeHint g = [55, 70, 30, 45]"
    using g cascade_forward_hints by (simp add: growSizer_cascade)
  then have hg: "map sizeHint g \<noteq> map sizeHint cascadeSizers"
    by (simp add: cascadeSizers_def)
  have d: "setHandlePosition exampleLayout 0 1050 \<noteq> Inr exampleLayout"
    unfolding setHandlePosition_example by (simp add: exampleLayout_def)
  obtain L' where L': "setHandlePosition exampleLayout 0 1050 = Inr L'"
    by (simp add: setHandlePosition_example)
  from adjuster_writes_only_hints [of cascadeSizers 1 100 g exampleLayout 0 1050 L'] g hg
    adjuster_writes_only_hints [of cascadeSizers 1 100 s exampleLayout 0 1050 L'] s
    L' d
  show ?thesis
    by auto
qed


section \<open>Properties of the fit pass\<close>

lemma fitSizers_returns:
  "0 \<le> i \<Longrightarrow> n = int (length ws) \<Longrightarrow> length ss = length ws \<Longrightarrow>
   \<exists>ss'. fitSizers ws horz ss i n = Inr ss' \<and> length ss' = length ss"
proof (induction ws horz ss i n rule: fitSizers.induct)
  case (1 ws horz ss i n)
  show ?case
  proof (cases "i < n")
    case False
    then show ?thesis
      by (subst fitSizers.simps) simp
  next
    case True
    with "1.prems" have w: "vector_at ws i = Some (ws ! nat i)"
      and s: "vector_at ss i = Some (ss ! nat i)"
      by (simp_all add: vector_at_in)
    let ?w = "ws ! nat i" and ?s0 = "ss ! nat i"
    define s1 where "s1 = (if cur_size ?s0 > 0 then ?s0\<lparr>sizeHint := cur_size ?s0\<rparr> else ?s0)"
    have ge: "0 \<le> i + 1" using "1.prems" by simp
    show ?thesis
    proof (cases "isHidden ?w")
      case h: True
      from "1.IH"(1) [OF True w s s1_def h ge] "1.prems"
      show ?thesis
        using True w s h by (subst fitSizers.simps) (simp add: s1_def Let_def)
    next
      case h: False
      show ?thesis
      proof (cases horz)
        case hz: True
        from "1.IH"(2) [OF True w s s1_def h hz ge] "1.prems"
        show ?thesis
          using True w s h hz by (subst fitSizers.simps) (simp add: s1_def Let_def)
      next
        case hz: False
        from "1.IH"(3) [OF True w s s1_def h hz ge] "1.prems"
        show ?thesis
          using True w s h hz by (subst fitSizers.simps) (simp add: s1_def Let_def)
      qed
    qed
  qed
qed

text \<open>
  What the first loop leaves: the handles from \<open>i\<close> on carry the hidden class of their
  widgets, the ones before \<open>i\<close> are untouched, and \<open>lastHandle\<close> is the last visible widget
  from \<open>i\<close> on if there is one, and what it was otherwise.
\<close>

lemma fitHandles_spec:
  "0 \<le> i \<Longrightarrow> n = int (length ws) \<Longrightarrow> length hs = length ws \<Longrightarrow>
   \<exists>hs' last' nv'. fitHandles ws hs i n lastHandle nv = Inr (hs', last', nv')
     \<and> length hs' = length hs
     \<and> (\<forall>k < length hs. hiddenClass (hs' ! k) =
           (if int k < i then hiddenClass (hs ! k) else isHidden (ws ! k)))
     \<and> ((last' = lastHandle \<and> (\<forall>k < length ws. i \<le> int k \<longrightarrow> isHidden (ws ! k)))
        \<or> (\<exists>j < length ws. last' = Some (int j) \<and> i \<le> int j \<and> \<not> isHidden (ws ! j)
             \<and> (\<forall>k < length ws. j < k \<longrightarrow> isHidden (ws ! k))))"
proof (induction ws hs i n lastHandle nv rule: fitHandles.induct)
  case (1 ws hs i n lastHandle nv)
  show ?case
  proof (cases "i < n")
    case False
    have "fitHandles ws hs i n lastHandle nv = Inr (hs, lastHandle, nv)"
      using False by (subst fitHandles.simps) simp
    moreover have "\<forall>k < length hs. int k < i"
      using False "1.prems" by auto
    ultimately show ?thesis
      using "1.prems" by auto
  next
    case True
    with "1.prems" have w: "vector_at ws i = Some (ws ! nat i)"
      and h: "vector_at hs i = Some (hs ! nat i)"
      by (simp_all add: vector_at_in)
    let ?w = "ws ! nat i" and ?h = "hs ! nat i"
    have ge: "0 \<le> i + 1" using "1.prems" by simp
    have lt: "nat i < length ws" "nat i < length hs"
      using True "1.prems" by linarith+
    show ?thesis
    proof (cases "isHidden ?w")
      case hid: True
      let ?hs1 = "hs[nat i := ?h\<lparr>hiddenClass := True\<rparr>]"
      have len1: "length ?hs1 = length ws"
        using "1.prems" by simp
      from "1.IH"(1) [OF True w h hid ge "1.prems"(2) len1]
      obtain hs' last' nv' where
        run: "fitHandles ws ?hs1 (i + 1) n lastHandle nv = Inr (hs', last', nv')"
        and len: "length hs' = length ?hs1"
        and cls: "\<forall>k < length ?hs1. hiddenClass (hs' ! k) =
           (if int k < i + 1 then hiddenClass (?hs1 ! k) else isHidden (ws ! k))"
        and lst: "(last' = lastHandle \<and> (\<forall>k < length ws. i + 1 \<le> int k \<longrightarrow> isHidden (ws ! k)))
          \<or> (\<exists>j < length ws. last' = Some (int j) \<and> i + 1 \<le> int j \<and> \<not> isHidden (ws ! j)
             \<and> (\<forall>k < length ws. j < k \<longrightarrow> isHidden (ws ! k)))"
        by blast
      have eq: "fitHandles ws hs i n lastHandle nv = Inr (hs', last', nv')"
        using True w h hid run by (subst fitHandles.simps) simp
      have cls': "\<forall>k < length hs. hiddenClass (hs' ! k) =
           (if int k < i then hiddenClass (hs ! k) else isHidden (ws ! k))"
      proof (intro allI impI)
        fix k assume k: "k < length hs"
        show "hiddenClass (hs' ! k) = (if int k < i then hiddenClass (hs ! k) else isHidden (ws ! k))"
        proof (cases "k = nat i")
          case True
          then show ?thesis
            using cls k hid "1.prems"(1) by (simp add: nth_list_update)
        next
          case False
          then have "int k < i + 1 \<longleftrightarrow> int k < i"
            using "1.prems"(1) by linarith
          then show ?thesis
            using cls k False by (simp add: nth_list_update)
        qed
      qed
      have lst': "(last' = lastHandle \<and> (\<forall>k < length ws. i \<le> int k \<longrightarrow> isHidden (ws ! k)))
          \<or> (\<exists>j < length ws. last' = Some (int j) \<and> i \<le> int j \<and> \<not> isHidden (ws ! j)
             \<and> (\<forall>k < length ws. j < k \<longrightarrow> isHidden (ws ! k)))"
        using lst
      proof
        assume a: "last' = lastHandle \<and> (\<forall>k < length ws. i + 1 \<le> int k \<longrightarrow> isHidden (ws ! k))"
        have "\<forall>k < length ws. i \<le> int k \<longrightarrow> isHidden (ws ! k)"
        proof (intro allI impI)
          fix k assume "k < length ws" "i \<le> int k"
          then show "isHidden (ws ! k)"
            using a hid "1.prems"(1) by (cases "int k = i") auto
        qed
        with a show ?thesis by blast
      next
        assume "\<exists>j < length ws. last' = Some (int j) \<and> i + 1 \<le> int j \<and> \<not> isHidden (ws ! j)
             \<and> (\<forall>k < length ws. j < k \<longrightarrow> isHidden (ws ! k))"
        then obtain j where "j < length ws" "last' = Some (int j)" "i + 1 \<le> int j"
          "\<not> isHidden (ws ! j)" "\<forall>k < length ws. j < k \<longrightarrow> isHidden (ws ! k)"
          by blast
        then show ?thesis
          by (intro disjI2 exI [of _ j]) simp
      qed
      show ?thesis
        using eq len cls' lst' by simp
    next
      case vis: False
      let ?hs1 = "hs[nat i := ?h\<lparr>hiddenClass := False\<rparr>]"
      have len1: "length ?hs1 = length ws"
        using "1.prems" by simp
      from "1.IH"(2) [OF True w h vis ge "1.prems"(2) len1]
      obtain hs' last' nv' where
        run: "fitHandles ws ?hs1 (i + 1) n (Some i) (nv + 1) = Inr (hs', last', nv')"
        and len: "length hs' = length ?hs1"
        and cls: "\<forall>k < length ?hs1. hiddenClass (hs' ! k) =
           (if int k < i + 1 then hiddenClass (?hs1 ! k) else isHidden (ws ! k))"
        and lst: "(last' = Some i \<and> (\<forall>k < length ws. i + 1 \<le> int k \<longrightarrow> isHidden (ws ! k)))
          \<or> (\<exists>j < length ws. last' = Some (int j) \<and> i + 1 \<le> int j \<and> \<not> isHidden (ws ! j)
             \<and> (\<forall>k < length ws. j < k \<longrightarrow> isHidden (ws ! k)))"
        by blast
      have eq: "fitHandles ws hs i n lastHandle nv = Inr (hs', last', nv')"
        using True w h vis run by (subst fitHandles.simps) simp
      have cls': "\<forall>k < length hs. hiddenClass (hs' ! k) =
           (if int k < i then hiddenClass (hs ! k) else isHidden (ws ! k))"
      proof (intro allI impI)
        fix k assume k: "k < length hs"
        show "hiddenClass (hs' ! k) = (if int k < i then hiddenClass (hs ! k) else isHidden (ws ! k))"
        proof (cases "k = nat i")
          case True
          then show ?thesis
            using cls k vis "1.prems"(1) by (simp add: nth_list_update)
        next
          case False
          then have "int k < i + 1 \<longleftrightarrow> int k < i"
            using "1.prems"(1) by linarith
          then show ?thesis
            using cls k False by (simp add: nth_list_update)
        qed
      qed
      have lst': "\<exists>j < length ws. last' = Some (int j) \<and> i \<le> int j \<and> \<not> isHidden (ws ! j)
             \<and> (\<forall>k < length ws. j < k \<longrightarrow> isHidden (ws ! k))"
        using lst
      proof
        assume a: "last' = Some i \<and> (\<forall>k < length ws. i + 1 \<le> int k \<longrightarrow> isHidden (ws ! k))"
        have "\<forall>k < length ws. nat i < k \<longrightarrow> isHidden (ws ! k)"
          using a by auto
        then show ?thesis
          using a vis lt "1.prems"(1) by (intro exI [of _ "nat i"]) simp
      next
        assume "\<exists>j < length ws. last' = Some (int j) \<and> i + 1 \<le> int j \<and> \<not> isHidden (ws ! j)
             \<and> (\<forall>k < length ws. j < k \<longrightarrow> isHidden (ws ! k))"
        then obtain j where "j < length ws" "last' = Some (int j)" "i + 1 \<le> int j"
          "\<not> isHidden (ws ! j)" "\<forall>k < length ws. j < k \<longrightarrow> isHidden (ws ! k)"
          by blast
        then show ?thesis
          by (intro exI [of _ j]) simp
      qed
      show ?thesis
        using eq len cls' lst' by simp
    qed
  qed
qed



lemma hideLastHandle_None [simp]: "hideLastHandle hs None = hs"
  by (simp add: hideLastHandle_def)

lemma hideLastHandle_Some:
  "j < length hs \<Longrightarrow> k < length hs \<Longrightarrow>
   hiddenClass (hideLastHandle hs (Some (int j)) ! k) = (hiddenClass (hs ! k) \<or> k = j)"
  by (auto simp: hideLastHandle_def nth_list_update)

lemma length_hideLastHandle [simp]: "length (hideLastHandle hs l) = length hs"
  by (simp add: hideLastHandle_def split: option.splits)


text \<open>
  Claim C8.  On a layout with one handle and one sizer per child, the fit pass returns, and
  after it a handle is hidden if and only if its child is hidden or is the last visible
  child in index order (no child after it is visible); every other handle is visible.
\<close>

theorem fit_handle_visibility:
  assumes hl: "length (handles L) = length (widgets L)"
    and sl: "length (sizers L) = length (widgets L)"
  shows "\<exists>L'. fit L = Inr L' \<and> widgets L' = widgets L
    \<and> length (handles L') = length (widgets L)
    \<and> (\<forall>i < length (widgets L).
          hiddenClass (handles L' ! i) \<longleftrightarrow>
            (isHidden (widgets L ! i)
             \<or> (\<forall>j < length (widgets L). i < j \<longrightarrow> isHidden (widgets L ! j))))"
proof -
  let ?ws = "widgets L"
  let ?n = "length ?ws"
  from fitHandles_spec [of 0 "int ?n" ?ws "handles L" None 0] hl
  obtain hs' last' nv' where
    run: "fitHandles ?ws (handles L) 0 (int ?n) None 0 = Inr (hs', last', nv')"
    and len: "length hs' = ?n"
    and cls: "\<forall>k < ?n. hiddenClass (hs' ! k) = isHidden (?ws ! k)"
    and lst: "(last' = None \<and> (\<forall>k < ?n. isHidden (?ws ! k)))
        \<or> (\<exists>j < ?n. last' = Some (int j) \<and> \<not> isHidden (?ws ! j)
             \<and> (\<forall>k < ?n. j < k \<longrightarrow> isHidden (?ws ! k)))"
    by auto
  from fitSizers_returns [of 0 "int ?n" ?ws "sizers L" "orientation L = Horizontal"] sl
  obtain ss' where sz: "fitSizers ?ws (orientation L = Horizontal) (sizers L) 0 (int ?n) = Inr ss'"
    by auto
  define L' where "L' = L\<lparr>handles := hideLastHandle hs' last',
      fixed := spacing L * max 0 (real_of_int nv' - 1), sizers := ss', dirty := True\<rparr>"
  have eq: "fit L = Inr L'"
    by (simp add: fit_def run sz L'_def)
  have vis: "hiddenClass (handles L' ! i) \<longleftrightarrow>
      (isHidden (?ws ! i) \<or> (\<forall>j < ?n. i < j \<longrightarrow> isHidden (?ws ! j)))"
    if i: "i < ?n" for i
    using lst
  proof
    assume a: "last' = None \<and> (\<forall>k < ?n. isHidden (?ws ! k))"
    then show ?thesis
      using cls i by (simp add: L'_def)
  next
    assume "\<exists>j < ?n. last' = Some (int j) \<and> \<not> isHidden (?ws ! j)
        \<and> (\<forall>k < ?n. j < k \<longrightarrow> isHidden (?ws ! k))"
    then obtain j where j: "j < ?n" "last' = Some (int j)" "\<not> isHidden (?ws ! j)"
      and after: "\<forall>k < ?n. j < k \<longrightarrow> isHidden (?ws ! k)"
      by blast
    have h: "hiddenClass (handles L' ! i) = (isHidden (?ws ! i) \<or> i = j)"
      using hideLastHandle_Some [of j hs' i] j i len cls by (simp add: L'_def)
    show ?thesis
    proof (cases "i = j")
      case True
      with h after show ?thesis by simp
    next
      case False
      show ?thesis
      proof (cases "isHidden (?ws ! i)")
        case True
        with h show ?thesis by simp
      next
        case vis: False
        with after i have "\<not> j < i" by blast
        with False have "i < j" by simp
        with j have "\<not> (\<forall>k < ?n. i < k \<longrightarrow> isHidden (?ws ! k))" by blast
        with h vis False show ?thesis by simp
      qed
    qed
  qed
  have "widgets L' = ?ws" and "length (handles L') = ?n"
    using len by (simp_all add: L'_def)
  with eq vis show ?thesis
    by blast
qed



theorem fit_handle_visibility_witness:
  "length (handles hiddenTailLayout) = length (widgets hiddenTailLayout)
   \<and> length (sizers hiddenTailLayout) = length (widgets hiddenTailLayout)
   \<and> (\<exists>L'. fit hiddenTailLayout = Inr L' \<and> length (handles L') = 3
        \<and> \<not> hiddenClass (handles L' ! 0) \<and> hiddenClass (handles L' ! 1)
        \<and> hiddenClass (handles L' ! 2))"
proof -
  have a: "length (handles hiddenTailLayout) = length (widgets hiddenTailLayout)"
    and b: "length (sizers hiddenTailLayout) = length (widgets hiddenTailLayout)"
    by (simp_all add: hiddenTailLayout_def)
  have ws: "widgets hiddenTailLayout = [exampleChild, exampleChild, exampleChild\<lparr>isHidden := True\<rparr>]"
    by (simp add: hiddenTailLayout_def)
  have n: "length (widgets hiddenTailLayout) = 3"
    by (simp add: ws)
  from fit_handle_visibility [OF a b] obtain L' where
    eq: "fit hiddenTailLayout = Inr L'"
    and len: "length (handles L') = length (widgets hiddenTailLayout)"
    and vis: "\<forall>i < length (widgets hiddenTailLayout). hiddenClass (handles L' ! i) \<longleftrightarrow>
        (isHidden (widgets hiddenTailLayout ! i)
         \<or> (\<forall>j < length (widgets hiddenTailLayout). i < j \<longrightarrow>
               isHidden (widgets hiddenTailLayout ! j)))"
    by blast
  have all3: "(\<forall>j < 3. P j) \<longleftrightarrow> P 0 \<and> P 1 \<and> P (2::nat)" for P
    by (auto simp: numeral_3_eq_3 less_Suc_eq numeral_2_eq_2)
  from vis have "\<not> hiddenClass (handles L' ! 0)" "hiddenClass (handles L' ! 1)"
      "hiddenClass (handles L' ! 2)"
    unfolding n all3 by (simp_all add: ws exampleChild_def)
  with a b eq len n show ?thesis
    by auto
qed



section \<open>Properties of the widget flags\<close>

lemma flagValue_exp: "flagValue f = 2 ^ flagIndex f"
  by (cases f) simp_all

lemma flagIndex_less: "flagIndex f < 32"
  by (cases f) simp_all

lemma flagIndex_inj [simp]: "flagIndex a = flagIndex b \<longleftrightarrow> a = b"
  by (cases a; cases b) simp_all

lemma testFlag_bit: "testFlag fl f = bit fl (flagIndex f)"
  by (simp add: testFlag_def flagValue_exp and_exp_eq_0_iff_not_bit)

lemma testFlag_zero [simp]: "\<not> testFlag 0 f"
  by (simp add: testFlag_bit)

lemma testFlag_setFlag [simp]: "testFlag (setFlag fl a) b = (a = b \<or> testFlag fl b)"
  using flagIndex_less [of a] flagIndex_less [of b]
  by (auto simp: testFlag_bit setFlag_def flagValue_exp bit_or_iff bit_exp_iff)

lemma testFlag_clearFlag [simp]: "testFlag (clearFlag fl a) b = (a \<noteq> b \<and> testFlag fl b)"
  using flagIndex_less [of a] flagIndex_less [of b]
  by (auto simp: testFlag_bit clearFlag_def flagValue_exp bit_and_iff bit_not_iff bit_exp_iff)



section \<open>Properties of the store\<close>

lemma flagsOf_updWidget [simp]:
  "flagsOf (updWidget w f W) x = (if x = w then flags (f (store W w)) else flagsOf W x)"
  by (simp add: flagsOf_def updWidget_def)

lemma parentOf_updWidget [simp]:
  "parentOf (updWidget w f W) x = (if x = w then parent (f (store W w)) else parentOf W x)"
  by (simp add: parentOf_def updWidget_def)

lemma store_updWidget [simp]:
  "store (updWidget w f W) = (store W)(w := f (store W w))"
  by (simp add: updWidget_def)

lemma trace_updWidget [simp]: "trace (updWidget w f W) = trace W"
  by (simp add: updWidget_def)

lemma store_record_event [simp]: "store (record_event e W) = store W"
  by (simp add: record_event_def)

lemma trace_record_event [simp]: "trace (record_event e W) = trace W @ [e]"
  by (simp add: record_event_def)

lemma flagsOf_record_event [simp]: "flagsOf (record_event e W) = flagsOf W"
  by (rule ext) (simp add: flagsOf_def)

lemma parentOf_record_event [simp]: "parentOf (record_event e W) = parentOf W"
  by (rule ext) (simp add: parentOf_def)

lemma isDisposed_record_event [simp]: "isDisposed (record_event e W) = isDisposed W"
  by (rule ext) (simp add: isDisposed_def)

text \<open>A message that no layout passes on only leaves its delivery in the trace.\<close>

lemma sendToParent_eq:
  "fst msg \<notin> {AfterShow, BeforeHide, AfterAttach, BeforeDetach} \<Longrightarrow>
   sendToParent msg p W = record_event (Sent p (fst msg) (snd msg)) W"
  by (cases "fst msg") (simp_all add: sendToParent_def sendMessage_def)

lemma sendMessage_other:
  "fst msg \<notin> {AfterShow, BeforeHide, AfterAttach, BeforeDetach} \<Longrightarrow>
   sendMessage msg t W = record_event (Sent (widgetOf t) (fst msg) (snd msg)) W"
  by (cases t; cases "fst msg") (simp_all add: sendMessage_def)

section \<open>The setter of \<open>parent\<close>\<close>

lemma containsLoop_True:
  "ancestorOrSelf W x this \<Longrightarrow> containsLoop W this (Some x) = Some True"
proof (induction rule: ancestorOrSelf.induct)
  case (self x)
  show ?case by (subst containsLoop.simps) simp
next
  case (step x p a)
  then show ?case by (subst containsLoop.simps) simp
qed

lemma containsLoop_False:
  "endsWithout W this x \<Longrightarrow> containsLoop W this (Some x) = Some False"
proof (induction rule: endsWithout.induct)
  case (top x)
  then show ?case
    by (subst containsLoop.simps) (simp add: containsLoop.simps [of W this None])
next
  case (up x p)
  then show ?case by (subst containsLoop.simps) simp
qed

lemma assignParent_eq:
  "assignParent t value W =
     record_event (Sent (widgetOf t) ParentChanged None)
       (W\<lparr>store := (store W)(widgetOf t := (store W (widgetOf t))\<lparr>parent := value\<rparr>),
          trace := trace W @ removedNotice W (widgetOf t) @ [ParentSet (widgetOf t) value]
                     @ addedNotice W (widgetOf t) value\<rparr>)"
proof -
  have r: "(case parentOf W (widgetOf t) of
              None \<Rightarrow> W
            | Some old \<Rightarrow>
                if \<not> isDisposed W old then sendToParent (ChildRemoved, Some (widgetOf t)) old W
                else W) = W\<lparr>trace := trace W @ removedNotice W (widgetOf t)\<rparr>"
    by (simp add: removedNotice_def sendToParent_eq record_event_def split: option.splits)
  define W2 where "W2 = record_event (ParentSet (widgetOf t) value)
     (updWidget (widgetOf t) (\<lambda>x. x\<lparr>parent := value\<rparr>) (W\<lparr>trace := trace W @ removedNotice W (widgetOf t)\<rparr>))"
  have p2: "parentOf W2 (widgetOf t) = value" and d2: "isDisposed W2 = isDisposed W"
    by (simp_all add: W2_def isDisposed_def fun_eq_iff flagsOf_def parentOf_def updWidget_def)
  have a: "(case parentOf W2 (widgetOf t) of
              None \<Rightarrow> W2
            | Some new \<Rightarrow>
                if \<not> isDisposed W2 new then sendToParent (ChildAdded, Some (widgetOf t)) new W2
                else W2) = W2\<lparr>trace := trace W2 @ addedNotice W (widgetOf t) value\<rparr>"
    unfolding p2 d2
    by (simp add: addedNotice_def sendToParent_eq record_event_def split: option.splits)
  show ?thesis
    unfolding assignParent_def Let_def r W2_def [symmetric] a
    by (simp add: sendMessage_other W2_def record_event_def updWidget_def)
qed



text \<open>
  Claim C6.  In a store where the parent of the widget is not one of its own descendants (the
  parent references form no cycle through it), assigning as parent the widget itself or one
  of its descendants raises an error and leaves the store and the trace as they were.  Otherwise, when the value differs from the current parent, the setter returns; the
  trace grows by exactly these events, in this order: \<open>child-removed\<close> delivered to the old
  parent (if there is one and it is not disposed), the assignment of the parent reference,
  \<open>child-added\<close> delivered to the new parent (if there is one and it is not disposed), and
  \<open>parent-changed\<close> delivered to the widget itself; nothing but the parent reference of the
  widget changes in the store.  Assigning the current parent again changes nothing.
\<close>

theorem setParent_protocol:
  "((\<forall>p. parentOf W (widgetOf t) = Some p \<longrightarrow> \<not> ancestorOrSelf W p (widgetOf t))
        \<and> ancestorOrSelf W v (widgetOf t) \<longrightarrow>
      setParent t (Some v) W = Some (Raised InvalidParent W))
   \<and> (parentOf W (widgetOf t) \<noteq> value
        \<and> (case value of None \<Rightarrow> True | Some v \<Rightarrow> endsWithout W (widgetOf t) v) \<longrightarrow>
      (\<exists>W'. setParent t value W = Some (Ok W')
         \<and> parentOf W' (widgetOf t) = value
         \<and> store W' = (store W)(widgetOf t := (store W (widgetOf t))\<lparr>parent := value\<rparr>)
         \<and> trace W' = trace W @ removedNotice W (widgetOf t) @ [ParentSet (widgetOf t) value]
              @ addedNotice W (widgetOf t) value @ [Sent (widgetOf t) ParentChanged None]))
   \<and> (parentOf W (widgetOf t) = value \<longrightarrow> setParent t value W = Some (Ok W))"
proof (intro conjI impI)
  assume a: "(\<forall>p. parentOf W (widgetOf t) = Some p \<longrightarrow> \<not> ancestorOrSelf W p (widgetOf t))
        \<and> ancestorOrSelf W v (widgetOf t)"
  then have "parentOf W (widgetOf t) \<noteq> Some v"
    by blast
  with a show "setParent t (Some v) W = Some (Raised InvalidParent W)"
    by (simp add: setParent_def containsLoop_True)
next
  assume a: "parentOf W (widgetOf t) \<noteq> value
        \<and> (case value of None \<Rightarrow> True | Some v \<Rightarrow> endsWithout W (widgetOf t) v)"
  then have "setParent t value W = Some (Ok (assignParent t value W))"
    by (cases "value") (auto simp: setParent_def containsLoop_False)
  then show "\<exists>W'. setParent t value W = Some (Ok W')
         \<and> parentOf W' (widgetOf t) = value
         \<and> store W' = (store W)(widgetOf t := (store W (widgetOf t))\<lparr>parent := value\<rparr>)
         \<and> trace W' = trace W @ removedNotice W (widgetOf t) @ [ParentSet (widgetOf t) value]
              @ addedNotice W (widgetOf t) value @ [Sent (widgetOf t) ParentChanged None]"
    by (simp add: assignParent_eq parentOf_def)
next
  assume "parentOf W (widgetOf t) = value"
  then show "setParent t value W = Some (Ok W)"
    by (simp add: setParent_def)
qed

lemma chain_parents [simp]:
  "parentOf chainWorld 0 = None" "parentOf chainWorld (Suc 0) = Some 0"
  "parentOf chainWorld 2 = Some (Suc 0)" "parentOf chainWorld 3 = None"
  by (simp_all add: chainWorld_def parentOf_def freshWidget_def)

lemma chain_not_disposed [simp]: "\<not> isDisposed chainWorld w"
  by (simp add: chainWorld_def isDisposed_def flagsOf_def freshWidget_def)

theorem setParent_protocol_witness:
  "parentOf chainWorld 0 = None \<and> ancestorOrSelf chainWorld 2 0
   \<and> setParent chainTree (Some 2) chainWorld = Some (Raised InvalidParent chainWorld)
   \<and> parentOf chainWorld 2 \<noteq> Some 3 \<and> endsWithout chainWorld 2 3
   \<and> (\<exists>W'. setParent (WTree 2 []) (Some 3) chainWorld = Some (Ok W') \<and> parentOf W' 2 = Some 3
        \<and> trace W' = [Sent 1 ChildRemoved (Some 2), ParentSet 2 (Some 3),
                        Sent 3 ChildAdded (Some 2), Sent 2 ParentChanged None])
   \<and> setParent (WTree 2 []) (Some 1) chainWorld = Some (Ok chainWorld)"
proof -
  have a: "ancestorOrSelf chainWorld 2 0"
    by (rule ancestorOrSelf.step [where p = 1], simp, rule ancestorOrSelf.step [where p = 0],
        simp, rule ancestorOrSelf.self)
  have b: "endsWithout chainWorld 2 3"
    by (rule endsWithout.top) simp_all
  have t: "widgetOf chainTree = 0"
    by (simp add: chainTree_def)
  have tr: "trace chainWorld = []"
    by (simp add: chainWorld_def)
  from setParent_protocol [of chainWorld chainTree 2 "Some 2"]
    setParent_protocol [of chainWorld "WTree 2 []" 0 "Some 3"]
    setParent_protocol [of chainWorld "WTree 2 []" 0 "Some 1"] a b
  show ?thesis
    by (auto simp: t tr removedNotice_def addedNotice_def)
qed



section \<open>Frames of message processing\<close>

lemma lifecycleOnly_refl [simp]: "lifecycleOnly W W"
  by (simp add: lifecycleOnly_def)

lemma lifecycleOnly_trans:
  assumes ab: "lifecycleOnly A B" and bc: "lifecycleOnly B C"
  shows "lifecycleOnly A C"
proof -
  have "store C x = (store A x)\<lparr>flags := flags (store C x)\<rparr>" for x
  proof -
    from ab have 1: "store B x = (store A x)\<lparr>flags := flags (store B x)\<rparr>"
      by (simp add: lifecycleOnly_def)
    from bc have 2: "store C x = (store B x)\<lparr>flags := flags (store C x)\<rparr>"
      by (simp add: lifecycleOnly_def)
    show ?thesis
      by (subst 2, subst 1) simp
  qed
  moreover have "testFlag (flags (store C x)) f = testFlag (flags (store A x)) f"
    if "f \<noteq> IsVisible \<and> f \<noteq> IsAttached" for x f
    using ab bc that by (simp add: lifecycleOnly_def)
  ultimately show ?thesis
    unfolding lifecycleOnly_def by blast
qed

lemma lifecycleOnly_record_event [simp]: "lifecycleOnly W (record_event e W)"
  by (simp add: lifecycleOnly_def)

lemma lifecycleOnly_setFlagOf:
  "f = IsVisible \<or> f = IsAttached \<Longrightarrow> lifecycleOnly W (setFlagOf w f W)"
  by (auto simp: lifecycleOnly_def setFlagOf_def)

lemma lifecycleOnly_clearFlagOf:
  "f = IsVisible \<or> f = IsAttached \<Longrightarrow> lifecycleOnly W (clearFlagOf w f W)"
  by (auto simp: lifecycleOnly_def clearFlagOf_def)

lemma processMessage_lifecycleOnly:
  "lifecycleOnly W (processMessage msg t W)"
  "lifecycleOnly W (notifyLayout msg w cs W)"
  "lifecycleOnly W (forwardAll msg cs W)"
  "lifecycleOnly W (forwardShown msg cs W)"
proof (induction msg t W and msg w cs W and msg cs W and msg cs W
    rule: processMessage_notifyLayout_forwardAll_forwardShown.induct)
  case (1 msg w cs W)
  show ?case
  proof (cases "fst msg")
    case AfterShow
    have "lifecycleOnly W (setFlagOf w IsVisible W)"
      by (simp add: lifecycleOnly_setFlagOf)
    moreover have "lifecycleOnly (setFlagOf w IsVisible W)
        (notifyLayout msg w cs (setFlagOf w IsVisible W))"
      using "1.IH" AfterShow by simp
    ultimately have "lifecycleOnly W (notifyLayout msg w cs (setFlagOf w IsVisible W))"
      by (rule lifecycleOnly_trans)
    then show ?thesis
      using AfterShow by simp
  next
    case BeforeHide
    have "lifecycleOnly W (notifyLayout msg w cs W)"
      using "1.IH" BeforeHide by simp
    moreover have "lifecycleOnly (notifyLayout msg w cs W)
        (clearFlagOf w IsVisible (notifyLayout msg w cs W))"
      by (simp add: lifecycleOnly_clearFlagOf)
    ultimately have "lifecycleOnly W (clearFlagOf w IsVisible (notifyLayout msg w cs W))"
      by (rule lifecycleOnly_trans)
    then show ?thesis
      using BeforeHide by simp
  next
    case AfterAttach
    define W1 where "W1 = (if \<not> isHidden_w W w \<and> parentVisible W w
        then setFlagOf w IsVisible W else W)"
    define W2 where "W2 = setFlagOf w IsAttached W1"
    have a: "lifecycleOnly W W1"
      by (simp add: W1_def lifecycleOnly_setFlagOf)
    have b: "lifecycleOnly W1 W2"
      by (simp add: W2_def lifecycleOnly_setFlagOf)
    have c: "lifecycleOnly W2 (notifyLayout msg w cs W2)"
      using "1.IH" AfterAttach by (simp add: W1_def W2_def)
    have "lifecycleOnly W (notifyLayout msg w cs W2)"
      by (rule lifecycleOnly_trans [OF lifecycleOnly_trans [OF a b] c])
    then show ?thesis
      using AfterAttach by (simp add: W1_def W2_def Let_def)
  next
    case BeforeDetach
    define W1 where "W1 = notifyLayout msg w cs W"
    have a: "lifecycleOnly W W1"
      using "1.IH" BeforeDetach by (simp add: W1_def)
    have b: "lifecycleOnly W1 (clearFlagOf w IsVisible W1)"
      by (simp add: lifecycleOnly_clearFlagOf)
    have c: "lifecycleOnly (clearFlagOf w IsVisible W1)
        (clearFlagOf w IsAttached (clearFlagOf w IsVisible W1))"
      by (simp add: lifecycleOnly_clearFlagOf)
    have "lifecycleOnly W (clearFlagOf w IsAttached (clearFlagOf w IsVisible W1))"
      by (rule lifecycleOnly_trans [OF lifecycleOnly_trans [OF a b] c])
    then show ?thesis
      using BeforeDetach by (simp add: W1_def)
  qed (use "1.IH" in simp_all)
next
  case (2 msg w cs W)
  then show ?case
    by (cases "fst msg") simp_all
next
  case (3 msg W)
  show ?case by simp
next
  case (4 msg c cs W)
  from "4.IH"(1) have a: "lifecycleOnly W (processMessage msg c
      (record_event (Sent (widgetOf c) (fst msg) (snd msg)) W))"
    by (rule lifecycleOnly_trans [OF lifecycleOnly_record_event])
  from a "4.IH"(2) show ?case
    by (simp add: lifecycleOnly_trans)
next
  case (5 msg W)
  show ?case by simp
next
  case (6 msg c cs W)
  show ?case
  proof (cases "isHidden_w W (widgetOf c)")
    case True
    with "6.IH"(2) show ?thesis by simp
  next
    case False
    from "6.IH"(1) [OF False] have a: "lifecycleOnly W (processMessage msg c
        (record_event (Sent (widgetOf c) (fst msg) (snd msg)) W))"
      by (rule lifecycleOnly_trans [OF lifecycleOnly_record_event])
    from a "6.IH"(2) False show ?thesis
      by (simp add: lifecycleOnly_trans)
  qed
qed



section \<open>Disposal\<close>

declare dispose.simps [simp del]

lemma isDisposed_updWidget:
  "isDisposed (updWidget w f W) x =
     (if x = w then testFlag (flags (f (store W w))) IsDisposed else isDisposed W x)"
  by (simp add: isDisposed_def flagsOf_def)

lemma isDisposed_setFlagOf [simp]:
  "isDisposed (setFlagOf w IsDisposed W) x = (x = w \<or> isDisposed W x)"
  by (auto simp: setFlagOf_def isDisposed_updWidget isDisposed_def flagsOf_def)

lemma parentOf_setFlagOf [simp]: "parentOf (setFlagOf w f W) = parentOf W"
  by (rule ext) (simp add: setFlagOf_def parentOf_def)

lemma isAttached_setFlagOf_Disposed [simp]:
  "isAttached (setFlagOf w IsDisposed W) = isAttached W"
  by (rule ext) (auto simp: setFlagOf_def isAttached_def flagsOf_def)

lemma isAttached_record_event [simp]: "isAttached (record_event e W) = isAttached W"
  by (rule ext) (simp add: isAttached_def)




lemma sendMessage_lifecycleOnly: "lifecycleOnly W (sendMessage msg t W)"
  unfolding sendMessage_def
  by (rule lifecycleOnly_trans [OF lifecycleOnly_record_event processMessage_lifecycleOnly(1)])


subsection \<open>The relation between the stores before and after a cascade\<close>

lemma onlyDisposals_refl [simp]: "onlyDisposals W W"
  by (simp add: onlyDisposals_def)

lemma onlyDisposals_at:
  "onlyDisposals W W' \<Longrightarrow>
   store W' x = store W x \<or> (\<not> isDisposed W x \<and> isDisposed W' x \<and> parentOf W' x = None)"
  by (simp add: onlyDisposals_def)

lemma same_store:
  "store W' x = store W x \<Longrightarrow> isDisposed W' x = isDisposed W x \<and> parentOf W' x = parentOf W x"
  by (simp add: isDisposed_def flagsOf_def parentOf_def)


lemma onlyDisposals_isDisposed:
  "onlyDisposals W W' \<Longrightarrow> isDisposed W x \<Longrightarrow> isDisposed W' x"
  using onlyDisposals_at [of W W' x] same_store [of W' x W] by blast









subsection \<open>The steps of a disposal\<close>


lemma clearData_frame [simp]:
  "isDisposed (clearData w W) = isDisposed W" "parentOf (clearData w W) = parentOf W"
  "isAttached (clearData w W) = isAttached W"
  "x \<noteq> w \<Longrightarrow> store (clearData w W) x = store W x"
  "trace (clearData w W) = trace W"
  by (auto simp: clearData_def isDisposed_def isAttached_def flagsOf_def parentOf_def fun_eq_iff)

lemma clearData_fields [simp]:
  "\<not> node (store (clearData w W) w)" "\<not> signalData (store (clearData w W) w)"
  "\<not> messageData (store (clearData w W) w)" "\<not> propertyData (store (clearData w W) w)"
  "layout (store (clearData w W) w) = layout (store W w)"
  "inDocument (store (clearData w W) w) = inDocument (store W w)"
  by (simp_all add: clearData_def)

lemma finish_frame [simp]:
  "isDisposed (finish w W) = isDisposed W" "parentOf (finish w W) = parentOf W"
  "isAttached (finish w W) = isAttached W"
  "x \<noteq> w \<Longrightarrow> store (finish w W) x = store W x"
  "trace (finish w W) = trace W @ [LayoutDisposed w]"
  by (auto simp: finish_def isDisposed_def isAttached_def flagsOf_def parentOf_def fun_eq_iff
      clearData_def)

lemma finish_fields [simp]:
  "\<not> node (store (finish w W) w)" "\<not> signalData (store (finish w W) w)"
  "\<not> messageData (store (finish w W) w)" "\<not> propertyData (store (finish w W) w)"
  "\<not> layout (store (finish w W) w)"
  "inDocument (store (finish w W) w) = inDocument (store W w)"
  by (simp_all add: finish_def clearData_def)














section \<open>Visibility of the widgets of a tree\<close>

lemma flagsOf_setFlagOf [simp]:
  "flagsOf (setFlagOf w f W) x = (if x = w then setFlag (flagsOf W w) f else flagsOf W x)"
  by (simp add: setFlagOf_def flagsOf_def updWidget_def)

lemma flagsOf_clearFlagOf [simp]:
  "flagsOf (clearFlagOf w f W) x = (if x = w then clearFlag (flagsOf W w) f else flagsOf W x)"
  by (simp add: clearFlagOf_def flagsOf_def updWidget_def)

lemma store_setFlagOf_other: "x \<noteq> w \<Longrightarrow> store (setFlagOf w f W) x = store W x"
  by (simp add: setFlagOf_def)

lemma store_clearFlagOf_other: "x \<noteq> w \<Longrightarrow> store (clearFlagOf w f W) x = store W x"
  by (simp add: clearFlagOf_def)

lemma widgetOf_in_ids [simp]: "widgetOf t \<in> set (ids t)"
  by (cases t) simp

text \<open>Processing a message writes to the widgets of the tree only.\<close>

lemma processMessage_outside:
  "x \<notin> set (ids t) \<Longrightarrow> store (processMessage msg t W) x = store W x"
  "x \<notin> set (concat (map ids cs)) \<Longrightarrow> store (notifyLayout msg w cs W) x = store W x"
  "x \<notin> set (concat (map ids cs)) \<Longrightarrow> store (forwardAll msg cs W) x = store W x"
  "x \<notin> set (concat (map ids cs)) \<Longrightarrow> store (forwardShown msg cs W) x = store W x"
proof (induction msg t W and msg w cs W and msg cs W and msg cs W
    rule: processMessage_notifyLayout_forwardAll_forwardShown.induct)
  case (1 msg w cs W)
  then show ?case
    by (cases "fst msg")
      (simp_all add: store_setFlagOf_other store_clearFlagOf_other Let_def)
next
  case (2 msg w cs W)
  then show ?case
    by (cases "fst msg") simp_all
next
  case (3 msg W)
  show ?case by simp
next
  case (4 msg c cs W)
  then show ?case by simp
next
  case (5 msg W)
  show ?case by simp
next
  case (6 msg c cs W)
  then show ?case by simp
qed

lemma forwardAll_fold:
  "forwardAll (m, a) cs W =
     fold (\<lambda>c V. processMessage (m, a) c (record_event (Sent (widgetOf c) m a) V)) cs W"
  by (induction cs arbitrary: W) simp_all

lemma forwardShown_fold:
  "forwardShown (m, a) cs W =
     fold (\<lambda>c V. if \<not> isHidden_w V (widgetOf c)
        then processMessage (m, a) c (record_event (Sent (widgetOf c) m a) V)
        else V) cs W"
  by (induction cs arbitrary: W) simp_all

text \<open>
  A loop over the children of a layout whose step writes to the widgets of the child only:
  what the step establishes for a child holds for every child after the loop.
\<close>

lemma forward_fold:
  assumes "distinct (concat (map ids cs))"
    and "set (concat (map ids cs)) \<subseteq> K"
    and "\<forall>c \<in> set cs. P c W"
    and step: "\<And>c V. c \<in> set cs \<Longrightarrow> P c V \<Longrightarrow> Q c (step c V)"
    and frame: "\<And>c V x. c \<in> set cs \<Longrightarrow> x \<notin> set (ids c) \<Longrightarrow> store (step c V) x = store V x"
    and Pcong: "\<And>c V V'. c \<in> set cs \<Longrightarrow> P c V \<Longrightarrow>
        (\<forall>x. x \<in> set (ids c) \<or> x \<notin> K \<longrightarrow> store V' x = store V x) \<Longrightarrow> P c V'"
    and Qcong: "\<And>c V V'. c \<in> set cs \<Longrightarrow> Q c V \<Longrightarrow>
        (\<forall>x. x \<in> set (ids c) \<or> x \<notin> K \<longrightarrow> store V' x = store V x) \<Longrightarrow> Q c V'"
  shows "(\<forall>c \<in> set cs. Q c (fold step cs W))
    \<and> (\<forall>x. x \<notin> set (concat (map ids cs)) \<longrightarrow> store (fold step cs W) x = store W x)"
  using assms
proof (induction cs arbitrary: W)
  case Nil
  show ?case by simp
next
  case (Cons c cs)
  define W1 where "W1 = step c W"
  have dc: "set (ids c) \<inter> set (concat (map ids cs)) = {}" and dcs: "distinct (concat (map ids cs))"
    using Cons.prems(1) by auto
  have sub: "set (ids c) \<subseteq> K" "set (concat (map ids cs)) \<subseteq> K"
    using Cons.prems(2) by auto
  have Qc: "Q c W1"
    unfolding W1_def using Cons.prems(3) by (intro Cons.prems(4)) simp_all
  have fr1: "store W1 x = store W x" if "x \<notin> set (ids c)" for x
    unfolding W1_def using that by (intro Cons.prems(5)) simp_all
  have P1: "\<forall>d \<in> set cs. P d W1"
  proof
    fix d assume d: "d \<in> set cs"
    then have "set (ids d) \<subseteq> set (concat (map ids cs))"
      by auto
    with dc have dd: "set (ids d) \<inter> set (ids c) = {}"
      by blast
    have "P d W" using Cons.prems(3) d by simp
    then show "P d W1"
    proof (rule Cons.prems(6) [rotated])
      show "\<forall>x. x \<in> set (ids d) \<or> x \<notin> K \<longrightarrow> store W1 x = store W x"
        using dd sub(1) by (auto intro!: fr1)
    qed (use d in simp)
  qed
  have IH: "(\<forall>d \<in> set cs. Q d (fold step cs W1))
    \<and> (\<forall>x. x \<notin> set (concat (map ids cs)) \<longrightarrow> store (fold step cs W1) x = store W1 x)"
  proof (rule Cons.IH [OF dcs sub(2) P1])
    show "\<And>c V. c \<in> set cs \<Longrightarrow> P c V \<Longrightarrow> Q c (step c V)"
      by (rule Cons.prems(4)) simp_all
    show "\<And>c V x. c \<in> set cs \<Longrightarrow> x \<notin> set (ids c) \<Longrightarrow> store (step c V) x = store V x"
      by (rule Cons.prems(5)) simp_all
    show "\<And>c V V'. c \<in> set cs \<Longrightarrow> P c V \<Longrightarrow>
        (\<forall>x. x \<in> set (ids c) \<or> x \<notin> K \<longrightarrow> store V' x = store V x) \<Longrightarrow> P c V'"
      by (rule Cons.prems(6) [rotated 2]) simp_all
    show "\<And>c V V'. c \<in> set cs \<Longrightarrow> Q c V \<Longrightarrow>
        (\<forall>x. x \<in> set (ids c) \<or> x \<notin> K \<longrightarrow> store V' x = store V x) \<Longrightarrow> Q c V'"
      by (rule Cons.prems(7) [rotated 2]) simp_all
  qed
  have Qc': "Q c (fold step cs W1)"
    using Qc
  proof (rule Cons.prems(7) [rotated])
    show "\<forall>x. x \<in> set (ids c) \<or> x \<notin> K \<longrightarrow> store (fold step cs W1) x = store W1 x"
      using IH dc sub(2) by blast
  qed simp
  have fr: "store (fold step cs W1) x = store W x"
    if "x \<notin> set (concat (map ids (c # cs)))" for x
    using that IH fr1 by simp
  from Qc' IH fr show ?case
    by (simp add: W1_def)
qed

text \<open>Both predicates of a tree read the widgets of the tree only.\<close>

lemma consistent_cong:
  "(\<forall>x \<in> set (ids t). store V' x = store V x) \<Longrightarrow> consistent att pv t V' = consistent att pv t V"
proof (induction t arbitrary: pv)
  case (WTree w cs)
  have w: "store V' w = store V w"
    using WTree.prems by simp
  have "consistent att p c V' = consistent att p c V" if "c \<in> set cs" for c p
    using that WTree.prems by (intro WTree.IH) auto
  with w show ?case
    by (simp add: isAttached_def isVisible_def isHidden_w_def flagsOf_def)
qed

lemma linked_cong:
  "(\<forall>x \<in> set (ids t). store V' x = store V x) \<Longrightarrow> linked t V' = linked t V"
proof (induction t)
  case (WTree w cs)
  have w: "store V' w = store V w"
    using WTree.prems by simp
  have a: "linked c V' = linked c V" if "c \<in> set cs" for c
    using that WTree.prems by (intro WTree.IH) auto
  have b: "parentOf V' (widgetOf c) = parentOf V (widgetOf c)" if "c \<in> set cs" for c
  proof -
    have "widgetOf c \<in> set (ids (WTree w cs))"
      using that by (auto intro: widgetOf_in_ids)
    with WTree.prems show ?thesis
      unfolding parentOf_def by metis
  qed
  from w a b show ?case
    by simp
qed

text \<open>Where nothing is attached, or the root is hidden, it does not matter what is above.\<close>

lemma consistent_detached:
  "consistent False pv t V \<Longrightarrow> consistent False pv' t V"
  by (cases t) auto

lemma consistent_hidden_root:
  "isHidden_w V (widgetOf t) \<Longrightarrow> consistent att pv t V \<Longrightarrow> consistent att pv' t V"
  by (cases t) auto

lemmas vis_defs = isAttached_def isVisible_def isHidden_w_def

lemma same_widget:
  assumes "store V' x = store V x"
  shows "isAttached V' x = isAttached V x" "isVisible V' x = isVisible V x"
    "isHidden_w V' x = isHidden_w V x" "parentOf V' x = parentOf V x"
  using assms by (simp_all add: vis_defs flagsOf_def parentOf_def)

lemma isHidden_w_record_event [simp]: "isHidden_w (record_event e W) = isHidden_w W"
  by (rule ext) (simp add: isHidden_w_def)

lemma isVisible_record_event [simp]: "isVisible (record_event e W) = isVisible W"
  by (rule ext) (simp add: isVisible_def)

lemma parentVisible_record_event [simp]: "parentVisible (record_event e W) = parentVisible W"
  by (rule ext) (simp add: parentVisible_def split: option.splits)

lemma consistent_record_event [simp]:
  "consistent att pv t (record_event e W) = consistent att pv t W"
  by (rule consistent_cong) simp

lemma linked_record_event [simp]: "linked t (record_event e W) = linked t W"
  by (rule linked_cong) simp

lemma ids_children:
  assumes "distinct (ids (WTree w cs))"
  shows "w \<notin> set (concat (map ids cs))" "distinct (concat (map ids cs))"
    "c \<in> set cs \<Longrightarrow> distinct (ids c)" "c \<in> set cs \<Longrightarrow> w \<notin> set (ids c)"
proof -
  from assms show a: "w \<notin> set (concat (map ids cs))" and b: "distinct (concat (map ids cs))"
    by simp_all
  show "distinct (ids c)" if "c \<in> set cs"
    using b that by (auto simp: distinct_concat_iff)
  show "w \<notin> set (ids c)" if "c \<in> set cs"
    using a that by auto
qed

text \<open>A layout is there where it is needed, so that the loop over the children runs.\<close>

lemma notifyLayout_linked:
  assumes "cs \<noteq> [] \<longrightarrow> layout (store W w)"
  shows "notifyLayout (AfterShow, a) w cs W = forwardShown (AfterShow, a) cs W"
    "notifyLayout (BeforeHide, a) w cs W = forwardShown (BeforeHide, a) cs W"
    "notifyLayout (AfterAttach, a) w cs W = forwardAll (AfterAttach, a) cs W"
    "notifyLayout (BeforeDetach, a) w cs W = forwardAll (BeforeDetach, a) cs W"
  using assms by (cases cs; simp)+

lemma layout_setFlagOf [simp]: "layout (store (setFlagOf w f W) x) = layout (store W x)"
  by (simp add: setFlagOf_def)

lemma layout_clearFlagOf [simp]: "layout (store (clearFlagOf w f W) x) = layout (store W x)"
  by (simp add: clearFlagOf_def)

declare processMessage.simps [simp del] notifyLayout.simps [simp del]

lemma afterShow_consistent:
  assumes "distinct (ids t)" and "linked t W" and "consistent True False t W"
    and "\<not> isHidden_w W (widgetOf t)"
  shows "consistent True True t (processMessage (AfterShow, a) t W)"
  using assms
proof (induction t arbitrary: W)
  case (WTree w cs)
  define W1 where "W1 = setFlagOf w IsVisible W"
  define step where "step = (\<lambda>c V. if \<not> isHidden_w V (widgetOf c)
        then processMessage (AfterShow, a) c (record_event (Sent (widgetOf c) AfterShow a) V)
        else V)"
  define W' where "W' = fold step cs W1"
  define K where "K = set (concat (map ids cs))"
  note d = ids_children [OF WTree.prems(1)]
  have lay: "cs \<noteq> [] \<longrightarrow> layout (store W1 w)"
    using WTree.prems(2) by (simp add: W1_def)
  have pm: "processMessage (AfterShow, a) (WTree w cs) W = W'"
    by (simp add: processMessage.simps notifyLayout_linked [OF lay, unfolded W1_def]
        forwardShown_fold W'_def step_def W1_def)
  have other: "store W1 x = store W x" if "x \<noteq> w" for x
    using that by (simp add: W1_def store_setFlagOf_other)
  have nv: "\<not> isVisible W w" and att: "isAttached W w"
    using WTree.prems(3) by simp_all
  have P1: "\<forall>c \<in> set cs. linked c W1 \<and> consistent True False c W1"
  proof
    fix c assume c: "c \<in> set cs"
    have same: "\<forall>x \<in> set (ids c). store W1 x = store W x"
      using d(4) [OF c] by (auto intro: other)
    from c WTree.prems(2,3) nv show "linked c W1 \<and> consistent True False c W1"
      by (simp add: linked_cong [OF same] consistent_cong [OF same])
  qed
  have F: "(\<forall>c \<in> set cs. consistent True True c (fold step cs W1))
    \<and> (\<forall>x. x \<notin> set (concat (map ids cs)) \<longrightarrow> store (fold step cs W1) x = store W1 x)"
  proof (rule forward_fold [where K = K
        and P = "\<lambda>c V. linked c V \<and> consistent True False c V"])
    show "distinct (concat (map ids cs))" by (rule d(2))
    show "set (concat (map ids cs)) \<subseteq> K" by (simp add: K_def)
    show "\<forall>c \<in> set cs. linked c W1 \<and> consistent True False c W1" by (rule P1)
    show "consistent True True c (step c V)"
      if "c \<in> set cs" and "linked c V \<and> consistent True False c V" for c V
    proof (cases "isHidden_w V (widgetOf c)")
      case True
      with that(2) consistent_hidden_root [of V c True False True] show ?thesis
        by (simp add: step_def)
    next
      case False
      have "consistent True True c (processMessage (AfterShow, a) c
          (record_event (Sent (widgetOf c) AfterShow a) V))"
        using that False d(3) [OF that(1)] by (intro WTree.IH) simp_all
      with False show ?thesis
        by (simp add: step_def)
    qed
    show "store (step c V) x = store V x" if "c \<in> set cs" and "x \<notin> set (ids c)" for c V x
      using that by (simp add: step_def processMessage_outside)
    show "linked c V' \<and> consistent True False c V'"
      if "c \<in> set cs" and "linked c V \<and> consistent True False c V"
        and "\<forall>x. x \<in> set (ids c) \<or> x \<notin> K \<longrightarrow> store V' x = store V x" for c V V'
    proof -
      from that(3) have s: "\<forall>x \<in> set (ids c). store V' x = store V x" by simp
      from that(2) show ?thesis
        by (simp add: linked_cong [OF s] consistent_cong [OF s])
    qed
    show "consistent True True c V'"
      if "c \<in> set cs" and "consistent True True c V"
        and "\<forall>x. x \<in> set (ids c) \<or> x \<notin> K \<longrightarrow> store V' x = store V x" for c V V'
    proof -
      from that(3) have s: "\<forall>x \<in> set (ids c). store V' x = store V x" by simp
      from that(2) show ?thesis
        by (simp add: consistent_cong [OF s])
    qed
  qed
  have root: "store W' w = store W1 w"
    using F d(1) by (simp add: W'_def)
  have rf: "flagsOf W' w = flagsOf W1 w"
    using root by (simp add: flagsOf_def)
  have "isAttached W' w" "isVisible W' w" "\<not> isHidden_w W' w"
    using att WTree.prems(4) by (simp_all add: rf W1_def vis_defs)
  with F show ?case
    by (simp add: pm W'_def)
qed

lemma beforeHide_consistent:
  assumes "distinct (ids t)" and "linked t W" and "consistent True True t W"
    and "\<not> isHidden_w W (widgetOf t)"
  shows "consistent True False t (processMessage (BeforeHide, a) t W)"
  using assms
proof (induction t arbitrary: W)
  case (WTree w cs)
  define step where "step = (\<lambda>c V. if \<not> isHidden_w V (widgetOf c)
        then processMessage (BeforeHide, a) c (record_event (Sent (widgetOf c) BeforeHide a) V)
        else V)"
  define W' where "W' = fold step cs W"
  define R where "R = clearFlagOf w IsVisible W'"
  define K where "K = set (concat (map ids cs))"
  note d = ids_children [OF WTree.prems(1)]
  have lay: "cs \<noteq> [] \<longrightarrow> layout (store W w)"
    using WTree.prems(2) by simp
  have pm: "processMessage (BeforeHide, a) (WTree w cs) W = R"
    by (simp add: processMessage.simps notifyLayout_linked [OF lay]
        forwardShown_fold W'_def step_def R_def)
  have vis: "isVisible W w" and att: "isAttached W w"
    using WTree.prems(3,4) by simp_all
  have P1: "\<forall>c \<in> set cs. linked c W \<and> consistent True True c W"
    using WTree.prems(2,3) vis by simp
  have F: "(\<forall>c \<in> set cs. consistent True False c (fold step cs W))
    \<and> (\<forall>x. x \<notin> set (concat (map ids cs)) \<longrightarrow> store (fold step cs W) x = store W x)"
  proof (rule forward_fold [where K = K
        and P = "\<lambda>c V. linked c V \<and> consistent True True c V"])
    show "distinct (concat (map ids cs))" by (rule d(2))
    show "set (concat (map ids cs)) \<subseteq> K" by (simp add: K_def)
    show "\<forall>c \<in> set cs. linked c W \<and> consistent True True c W" by (rule P1)
    show "consistent True False c (step c V)"
      if "c \<in> set cs" and "linked c V \<and> consistent True True c V" for c V
    proof (cases "isHidden_w V (widgetOf c)")
      case True
      with that(2) consistent_hidden_root [of V c True True False] show ?thesis
        by (simp add: step_def)
    next
      case False
      have "consistent True False c (processMessage (BeforeHide, a) c
          (record_event (Sent (widgetOf c) BeforeHide a) V))"
        using that False d(3) [OF that(1)] by (intro WTree.IH) simp_all
      with False show ?thesis
        by (simp add: step_def)
    qed
    show "store (step c V) x = store V x" if "c \<in> set cs" and "x \<notin> set (ids c)" for c V x
      using that by (simp add: step_def processMessage_outside)
    show "linked c V' \<and> consistent True True c V'"
      if "c \<in> set cs" and "linked c V \<and> consistent True True c V"
        and "\<forall>x. x \<in> set (ids c) \<or> x \<notin> K \<longrightarrow> store V' x = store V x" for c V V'
    proof -
      from that(3) have s: "\<forall>x \<in> set (ids c). store V' x = store V x" by simp
      from that(2) show ?thesis
        by (simp add: linked_cong [OF s] consistent_cong [OF s])
    qed
    show "consistent True False c V'"
      if "c \<in> set cs" and "consistent True False c V"
        and "\<forall>x. x \<in> set (ids c) \<or> x \<notin> K \<longrightarrow> store V' x = store V x" for c V V'
    proof -
      from that(3) have s: "\<forall>x \<in> set (ids c). store V' x = store V x" by simp
      from that(2) show ?thesis
        by (simp add: consistent_cong [OF s])
    qed
  qed
  have root: "store W' w = store W w"
    using F d(1) by (simp add: W'_def)
  have rf: "flagsOf W' w = flagsOf W w"
    using root by (simp add: flagsOf_def)
  have flags: "isAttached R w" "\<not> isVisible R w"
    using att by (simp_all add: R_def rf vis_defs)
  have kids: "consistent True False c R" if "c \<in> set cs" for c
  proof -
    have s: "\<forall>x \<in> set (ids c). store R x = store W' x"
    proof
      fix x assume "x \<in> set (ids c)"
      with d(4) [OF that] have "x \<noteq> w" by auto
      then show "store R x = store W' x"
        by (simp add: R_def store_clearFlagOf_other)
    qed
    from F that show ?thesis
      by (simp add: consistent_cong [OF s] W'_def)
  qed
  from flags kids show ?case
    by (simp add: pm)
qed

lemma beforeDetach_consistent:
  assumes "distinct (ids t)" and "linked t W"
  shows "consistent False pv t (processMessage (BeforeDetach, a) t W)"
  using assms
proof (induction t arbitrary: W pv)
  case (WTree w cs)
  define step where "step = (\<lambda>c V.
        processMessage (BeforeDetach, a) c (record_event (Sent (widgetOf c) BeforeDetach a) V))"
  define W' where "W' = fold step cs W"
  define R where "R = clearFlagOf w IsAttached (clearFlagOf w IsVisible W')"
  define K where "K = set (concat (map ids cs))"
  note d = ids_children [OF WTree.prems(1)]
  have lay: "cs \<noteq> [] \<longrightarrow> layout (store W w)"
    using WTree.prems(2) by simp
  have pm: "processMessage (BeforeDetach, a) (WTree w cs) W = R"
    by (simp add: processMessage.simps notifyLayout_linked [OF lay]
        forwardAll_fold W'_def step_def R_def)
  have P1: "\<forall>c \<in> set cs. linked c W"
    using WTree.prems(2) by simp
  have F: "(\<forall>c \<in> set cs. consistent False False c (fold step cs W))
    \<and> (\<forall>x. x \<notin> set (concat (map ids cs)) \<longrightarrow> store (fold step cs W) x = store W x)"
  proof (rule forward_fold [where K = K and P = "\<lambda>c V. linked c V"])
    show "distinct (concat (map ids cs))" by (rule d(2))
    show "set (concat (map ids cs)) \<subseteq> K" by (simp add: K_def)
    show "\<forall>c \<in> set cs. linked c W" by (rule P1)
    show "consistent False False c (step c V)" if "c \<in> set cs" and "linked c V" for c V
      unfolding step_def using that d(3) [OF that(1)] by (intro WTree.IH) simp_all
    show "store (step c V) x = store V x" if "c \<in> set cs" and "x \<notin> set (ids c)" for c V x
      using that by (simp add: step_def processMessage_outside)
    show "linked c V'"
      if "c \<in> set cs" and "linked c V"
        and "\<forall>x. x \<in> set (ids c) \<or> x \<notin> K \<longrightarrow> store V' x = store V x" for c V V'
    proof -
      from that(3) have s: "\<forall>x \<in> set (ids c). store V' x = store V x" by simp
      from that(2) show ?thesis
        by (simp add: linked_cong [OF s])
    qed
    show "consistent False False c V'"
      if "c \<in> set cs" and "consistent False False c V"
        and "\<forall>x. x \<in> set (ids c) \<or> x \<notin> K \<longrightarrow> store V' x = store V x" for c V V'
    proof -
      from that(3) have s: "\<forall>x \<in> set (ids c). store V' x = store V x" by simp
      from that(2) show ?thesis
        by (simp add: consistent_cong [OF s])
    qed
  qed
  have flags: "\<not> isAttached R w" "\<not> isVisible R w"
    by (simp_all add: R_def vis_defs)
  have kids: "consistent False False c R" if "c \<in> set cs" for c
  proof -
    have s: "\<forall>x \<in> set (ids c). store R x = store W' x"
    proof
      fix x assume "x \<in> set (ids c)"
      with d(4) [OF that] have "x \<noteq> w" by auto
      then show "store R x = store W' x"
        by (simp add: R_def store_clearFlagOf_other)
    qed
    from F that show ?thesis
      by (simp add: consistent_cong [OF s] W'_def)
  qed
  from flags kids show ?case
    by (simp add: pm)
qed

lemma afterAttach_consistent:
  assumes "distinct (ids t)" and "linked t W" and "consistent False pv t W"
    and "parentVisible W (widgetOf t) = pv"
  shows "consistent True pv t (processMessage (AfterAttach, a) t W)"
  using assms
proof (induction t arbitrary: W pv)
  case (WTree w cs)
  define vis where "vis = (\<not> isHidden_w W w \<and> parentVisible W w)"
  define W1 where "W1 = (if vis then setFlagOf w IsVisible W else W)"
  define W2 where "W2 = setFlagOf w IsAttached W1"
  define step where "step = (\<lambda>c V.
        processMessage (AfterAttach, a) c (record_event (Sent (widgetOf c) AfterAttach a) V))"
  define W' where "W' = fold step cs W2"
  define K where "K = set (concat (map ids cs))"
  note d = ids_children [OF WTree.prems(1)]
  have lay: "cs \<noteq> [] \<longrightarrow> layout (store W2 w)"
    using WTree.prems(2) by (simp add: W2_def W1_def)
  have pm: "processMessage (AfterAttach, a) (WTree w cs) W = W'"
    by (simp add: processMessage.simps notifyLayout_linked [OF lay, unfolded W2_def W1_def vis_def]
        forwardAll_fold W'_def step_def W2_def W1_def vis_def Let_def)
  have other: "store W2 x = store W x" if "x \<noteq> w" for x
    using that by (simp add: W2_def W1_def store_setFlagOf_other)
  have nv: "\<not> isVisible W w" and natt: "\<not> isAttached W w"
    using WTree.prems(3) by simp_all
  have v2: "isVisible W2 w = vis" "isAttached W2 w" "isHidden_w W2 w = isHidden_w W w"
    using nv by (simp_all add: W2_def W1_def vis_defs)
  have P1: "\<forall>c \<in> set cs. linked c W2 \<and> consistent False vis c W2
      \<and> parentOf W2 (widgetOf c) = Some w \<and> isVisible W2 w = vis"
  proof
    fix c assume c: "c \<in> set cs"
    have same: "\<forall>x \<in> set (ids c). store W2 x = store W x"
      using d(4) [OF c] by (auto intro: other)
    have "consistent False (isVisible W w) c W"
      using WTree.prems(3) c by auto
    then have "consistent False vis c W"
      by (rule consistent_detached)
    moreover have "parentOf W2 (widgetOf c) = parentOf W (widgetOf c)"
      using same by (simp add: parentOf_def)
    ultimately show "linked c W2 \<and> consistent False vis c W2
      \<and> parentOf W2 (widgetOf c) = Some w \<and> isVisible W2 w = vis"
      using c WTree.prems(2) v2 by (simp add: linked_cong [OF same] consistent_cong [OF same])
  qed
  have F: "(\<forall>c \<in> set cs. consistent True vis c (fold step cs W2))
    \<and> (\<forall>x. x \<notin> set (concat (map ids cs)) \<longrightarrow> store (fold step cs W2) x = store W2 x)"
  proof (rule forward_fold [where K = K
        and P = "\<lambda>c V. linked c V \<and> consistent False vis c V
          \<and> parentOf V (widgetOf c) = Some w \<and> isVisible V w = vis"])
    show "distinct (concat (map ids cs))" by (rule d(2))
    show "set (concat (map ids cs)) \<subseteq> K" by (simp add: K_def)
    show "\<forall>c \<in> set cs. linked c W2 \<and> consistent False vis c W2
      \<and> parentOf W2 (widgetOf c) = Some w \<and> isVisible W2 w = vis" by (rule P1)
    show "consistent True vis c (step c V)"
      if "c \<in> set cs" and "linked c V \<and> consistent False vis c V
          \<and> parentOf V (widgetOf c) = Some w \<and> isVisible V w = vis" for c V
      unfolding step_def using that d(3) [OF that(1)]
      by (intro WTree.IH) (simp_all add: parentVisible_def)
    show "store (step c V) x = store V x" if "c \<in> set cs" and "x \<notin> set (ids c)" for c V x
      using that by (simp add: step_def processMessage_outside)
    show "linked c V' \<and> consistent False vis c V'
          \<and> parentOf V' (widgetOf c) = Some w \<and> isVisible V' w = vis"
      if "c \<in> set cs" and "linked c V \<and> consistent False vis c V
          \<and> parentOf V (widgetOf c) = Some w \<and> isVisible V w = vis"
        and "\<forall>x. x \<in> set (ids c) \<or> x \<notin> K \<longrightarrow> store V' x = store V x" for c V V'
    proof -
      from that(3) have s: "\<forall>x \<in> set (ids c). store V' x = store V x" by simp
      from that(3) d(1) have w: "store V' w = store V w" by (simp add: K_def)
      from s have p: "store V' (widgetOf c) = store V (widgetOf c)" by simp
      from that(2) show ?thesis
        by (simp add: linked_cong [OF s] consistent_cong [OF s] same_widget [OF w]
            same_widget [OF p])
    qed
    show "consistent True vis c V'"
      if "c \<in> set cs" and "consistent True vis c V"
        and "\<forall>x. x \<in> set (ids c) \<or> x \<notin> K \<longrightarrow> store V' x = store V x" for c V V'
    proof -
      from that(3) have s: "\<forall>x \<in> set (ids c). store V' x = store V x" by simp
      from that(2) show ?thesis
        by (simp add: consistent_cong [OF s])
    qed
  qed
  have root: "store W' w = store W2 w"
    using F d(1) by (simp add: W'_def)
  have "isAttached W' w" "isVisible W' w = vis" "isHidden_w W' w = isHidden_w W w"
    using v2 by (simp_all add: same_widget [OF root])
  with F WTree.prems(4) show ?case
    by (auto simp: pm W'_def vis_def)
qed

lemma sendMessage_outside:
  "x \<notin> set (ids t) \<Longrightarrow> store (sendMessage msg t W) x = store W x"
  by (simp add: sendMessage_def processMessage_outside)

lemma flagsOf_hiddenStyle [simp]:
  "flagsOf (updWidget w (\<lambda>x. x\<lparr>hiddenStyle := b\<rparr>) W) = flagsOf W"
  by (rule ext) (simp add: flagsOf_def)

lemma flagsOf_inDocument [simp]:
  "flagsOf (updWidget w (\<lambda>x. x\<lparr>inDocument := b\<rparr>) W) = flagsOf W"
  by (rule ext) (simp add: flagsOf_def)

lemma parentOf_clearFlagOf [simp]: "parentOf (clearFlagOf w f W) = parentOf W"
  by (rule ext) (simp add: clearFlagOf_def parentOf_def)

lemma consistent_flags:
  "(\<forall>x \<in> set (ids t). flagsOf V' x = flagsOf V x) \<Longrightarrow>
   consistent att pv t V' = consistent att pv t V"
proof (induction t arbitrary: pv)
  case (WTree w cs)
  have w: "flagsOf V' w = flagsOf V w"
    using WTree.prems by simp
  have "consistent att p c V' = consistent att p c V" if "c \<in> set cs" for c p
    using that WTree.prems by (intro WTree.IH) auto
  with w show ?case
    by (simp add: vis_defs)
qed

text \<open>The parent and the layout of every widget stay as they are.\<close>

lemma linked_structure:
  "(\<forall>x. parent (store V' x) = parent (store V x) \<and> layout (store V' x) = layout (store V x))
   \<Longrightarrow> linked t V' = linked t V"
proof (induction t)
  case (WTree w cs)
  have "linked c V' = linked c V" if "c \<in> set cs" for c
    using that WTree.prems by (intro WTree.IH) auto
  with WTree.prems show ?case
    by (simp add: parentOf_def)
qed

lemma lifecycleOnly_structure:
  "lifecycleOnly W W' \<Longrightarrow>
   parent (store W' x) = parent (store W x) \<and> layout (store W' x) = layout (store W x)"
proof -
  assume "lifecycleOnly W W'"
  then have "store W' x = (store W x)\<lparr>flags := flags (store W' x)\<rparr>"
    by (simp add: lifecycleOnly_def)
  then have "parent (store W' x) = parent ((store W x)\<lparr>flags := flags (store W' x)\<rparr>)"
    and "layout (store W' x) = layout ((store W x)\<lparr>flags := flags (store W' x)\<rparr>)"
    by simp_all
  then show ?thesis
    by simp
qed

lemma sendMessage_structure:
  "parent (store (sendMessage msg t W) x) = parent (store W x)"
  "layout (store (sendMessage msg t W) x) = layout (store W x)"
  using lifecycleOnly_structure [OF sendMessage_lifecycleOnly, of msg t W x] by simp_all

lemma show_w_structure:
  "parent (store (show_w t W) x) = parent (store W x)
   \<and> layout (store (show_w t W) x) = layout (store W x)"
  by (simp add: show_w_def Let_def sendToParent_eq sendMessage_structure clearFlagOf_def
      split: option.splits)

lemma hide_w_structure:
  "parent (store (hide_w t W) x) = parent (store W x)
   \<and> layout (store (hide_w t W) x) = layout (store W x)"
  by (simp add: hide_w_def Let_def sendToParent_eq sendMessage_structure setFlagOf_def
      split: option.splits)

lemma show_w_outside:
  "x \<notin> set (ids t) \<Longrightarrow> store (show_w t W) x = store W x"
proof -
  assume x: "x \<notin> set (ids t)"
  then have "x \<noteq> widgetOf t"
    by (cases t) auto
  with x show ?thesis
    by (simp add: show_w_def Let_def sendToParent_eq sendMessage_outside clearFlagOf_def
        split: option.splits)
qed

lemma hide_w_outside:
  "x \<notin> set (ids t) \<Longrightarrow> store (hide_w t W) x = store W x"
proof -
  assume x: "x \<notin> set (ids t)"
  then have "x \<noteq> widgetOf t"
    by (cases t) auto
  with x show ?thesis
    by (simp add: hide_w_def Let_def sendToParent_eq sendMessage_outside setFlagOf_def
        split: option.splits)
qed

lemma parentVisible_flags:
  "parentOf V' = parentOf V \<Longrightarrow> (\<forall>x. isVisible V' x = isVisible V x) \<Longrightarrow>
   parentVisible V' = parentVisible V"
  by (rule ext) (simp add: parentVisible_def split: option.splits)

lemma consistent_child:
  "consistent att pv (WTree w cs) W \<Longrightarrow> c \<in> set cs \<Longrightarrow> consistent att (isVisible W w) c W"
  unfolding consistent.simps by blast

lemma show_w_consistent:
  assumes "distinct (ids s)" and "linked s W" and "consistent att pv s W"
    and "parentVisible W (widgetOf s) = pv"
  shows "consistent att pv s (show_w s W)"
proof (cases "isHidden_w W (widgetOf s)")
  case False
  with assms(3) show ?thesis
    by (simp add: show_w_def)
next
  case True
  obtain w cs where s: "s = WTree w cs"
    by (cases s)
  define W1 where "W1 = updWidget w (\<lambda>x. x\<lparr>hiddenStyle := False\<rparr>) (clearFlagOf w IsHidden W)"
  define W1' where "W1' = record_event (Sent w AfterShow None) W1"
  define W2 where "W2 = (if isAttached W1 w \<and> parentVisible W1 w
      then sendMessage (AfterShow, None) s W1 else W1)"
  note d = ids_children [OF assms(1) [unfolded s]]
  have "show_w s W = (case parentOf W2 w of None \<Rightarrow> W2
      | Some p \<Rightarrow> sendToParent (ChildShown, Some w) p W2)"
    unfolding show_w_def Let_def W2_def W1_def s widgetOf.simps
    using True [unfolded s widgetOf.simps] by (simp only: simp_thms if_False)
  then have st: "store (show_w s W) = store W2"
    by (simp add: sendToParent_eq split: option.splits)
  have f1: "flagsOf W1 x = (if x = w then clearFlag (flagsOf W w) IsHidden else flagsOf W x)" for x
    by (simp add: W1_def)
  have p1: "parentOf W1 = parentOf W"
    by (rule ext) (simp add: W1_def parentOf_def clearFlagOf_def)
  have pv1: "parentVisible W1 = parentVisible W"
    by (rule parentVisible_flags [OF p1]) (simp add: vis_defs f1)
  have str1: "\<forall>x. parent (store W1 x) = parent (store W x)
      \<and> layout (store W1 x) = layout (store W x)"
    by (simp add: W1_def clearFlagOf_def)
  have l1: "linked s W1"
    using assms(2) by (simp add: linked_structure [OF str1])
  have nv: "\<not> isVisible W w" and att: "isAttached W w = att"
    using assms(3) True by (simp_all add: s)
  have kids: "consistent att False c W1" if "c \<in> set cs" for c
  proof -
    have same: "\<forall>x \<in> set (ids c). flagsOf W1 x = flagsOf W x"
      using d(4) [OF that] by (auto simp: f1)
    have "consistent att (isVisible W w) c W"
      using assms(3) that unfolding s by (rule consistent_child)
    with nv show ?thesis
      by (simp add: consistent_flags [OF same])
  qed
  have root1: "isAttached W1 w = att" "\<not> isVisible W1 w" "\<not> isHidden_w W1 w"
    using nv att by (simp_all add: vis_defs f1)
  have "consistent att pv s W2"
  proof (cases "att \<and> pv")
    case True
    have "consistent True False s W1'"
      using root1 kids True by (simp add: W1'_def s)
    moreover have "linked s W1'" "\<not> isHidden_w W1' (widgetOf s)"
      using l1 root1 by (simp_all add: W1'_def s)
    ultimately have "consistent True True s (processMessage (AfterShow, None) s W1')"
      using assms(1) by (intro afterShow_consistent)
    moreover have "W2 = processMessage (AfterShow, None) s W1'"
      using True root1 assms(4) by (simp add: W2_def pv1 sendMessage_def W1'_def s)
    ultimately show ?thesis
      using True by simp
  next
    case False
    then have "W2 = W1"
      using root1 assms(4) by (auto simp: W2_def pv1 s)
    with root1 kids False show ?thesis
      by (auto simp: s)
  qed
  moreover have "consistent att pv s (show_w s W) = consistent att pv s W2"
    by (rule consistent_cong) (simp add: st)
  ultimately show ?thesis
    by simp
qed

lemma hide_w_consistent:
  assumes "distinct (ids s)" and "linked s W" and "consistent att pv s W"
    and "parentVisible W (widgetOf s) = pv"
  shows "consistent att pv s (hide_w s W)"
proof (cases "isHidden_w W (widgetOf s)")
  case True
  with assms(3) show ?thesis
    by (simp add: hide_w_def)
next
  case False
  obtain w cs where s: "s = WTree w cs"
    by (cases s)
  define W0 where "W0 = record_event (Sent w BeforeHide None) W"
  define W1 where "W1 = (if isAttached W w \<and> parentVisible W w
      then sendMessage (BeforeHide, None) s W else W)"
  define W2 where "W2 = updWidget w (\<lambda>x. x\<lparr>hiddenStyle := True\<rparr>) (setFlagOf w IsHidden W1)"
  note d = ids_children [OF assms(1) [unfolded s]]
  have "hide_w s W = (case parentOf W2 w of None \<Rightarrow> W2
      | Some p \<Rightarrow> sendToParent (ChildHidden, Some w) p W2)"
    unfolding hide_w_def Let_def W2_def W1_def s widgetOf.simps
    using False [unfolded s widgetOf.simps] by (rule if_not_P)
  then have st: "store (hide_w s W) = store W2"
    by (simp add: sendToParent_eq split: option.splits)
  have f2: "flagsOf W2 x = (if x = w then setFlag (flagsOf W1 w) IsHidden else flagsOf W1 x)" for x
    by (simp add: W2_def)
  have att: "isAttached W w = att"
    using assms(3) by (simp add: s)
  have c1: "consistent att False s W1"
  proof (cases "att \<and> pv")
    case True
    have "consistent True True s W0" "linked s W0" "\<not> isHidden_w W0 (widgetOf s)"
      using assms(2,3) True False by (simp_all add: W0_def)
    then have "consistent True False s (processMessage (BeforeHide, None) s W0)"
      using assms(1) by (intro beforeHide_consistent)
    moreover have "W1 = processMessage (BeforeHide, None) s W0"
      using True att assms(4) by (simp add: W1_def sendMessage_def W0_def s)
    ultimately show ?thesis
      using True by simp
  next
    case nope: False
    then have "W1 = W"
      using att assms(4) by (auto simp: W1_def s)
    with assms(3) nope show ?thesis
      by (auto simp: s)
  qed
  have kids: "consistent att False c W2" if "c \<in> set cs" for c
  proof -
    have same: "\<forall>x \<in> set (ids c). flagsOf W2 x = flagsOf W1 x"
      using d(4) [OF that] by (auto simp: f2)
    have "consistent att (isVisible W1 w) c W1"
      using c1 that unfolding s by (rule consistent_child)
    moreover have "\<not> isVisible W1 w"
      using c1 by (simp add: s)
    ultimately have "consistent att False c W1"
      by simp
    then show ?thesis
      by (simp add: consistent_flags [OF same])
  qed
  have root2: "isAttached W2 w = att" "\<not> isVisible W2 w" "isHidden_w W2 w"
    using c1 by (simp_all add: vis_defs f2 s)
  have "consistent att pv s W2"
    using root2 kids by (simp add: s)
  moreover have "consistent att pv s (hide_w s W) = consistent att pv s W2"
    by (rule consistent_cong) (simp add: st)
  ultimately show ?thesis
    by simp
qed

lemma attach_consistent:
  assumes "distinct (ids T)" and "linked T W" and "consistent att True T W"
    and "attach T h W = Ok W'"
  shows "consistent True True T W' \<and> parentOf W (widgetOf T) = None"
proof -
  define W0 where "W0 = record_event (Sent (widgetOf T) AfterAttach None)
      (updWidget (widgetOf T) (\<lambda>x. x\<lparr>inDocument := True\<rparr>) W)"
  from assms(4) have g: "parentOf W (widgetOf T) = None" "\<not> isAttached W (widgetOf T)"
    and W': "W' = processMessage (AfterAttach, None) T W0"
    by (auto simp: attach_def Let_def sendMessage_def W0_def split: if_splits)
  from g(2) assms(3) have "\<not> att"
    by (cases T) auto
  have str: "\<forall>x. parent (store W0 x) = parent (store W x)
      \<and> layout (store W0 x) = layout (store W x)"
    by (simp add: W0_def)
  have fl: "\<forall>x \<in> set (ids T). flagsOf W0 x = flagsOf W x"
    by (simp add: W0_def)
  have "parentOf W0 (widgetOf T) = None"
    using g(1) str by (simp add: parentOf_def)
  then have pv: "parentVisible W0 (widgetOf T) = True"
    by (simp add: parentVisible_def)
  have "consistent False True T W0" "linked T W0"
    using assms(2,3) \<open>\<not> att\<close> by (simp_all add: consistent_flags [OF fl] linked_structure [OF str])
  then have "consistent True True T (processMessage (AfterAttach, None) T W0)"
    using assms(1) pv by (intro afterAttach_consistent)
  with g W' show ?thesis
    by simp
qed

lemma detach_consistent:
  assumes "distinct (ids T)" and "linked T W" and "detach T W = Ok W'"
  shows "consistent False True T W'"
proof -
  define W0 where "W0 = record_event (Sent (widgetOf T) BeforeDetach None) W"
  define W1 where "W1 = processMessage (BeforeDetach, None) T W0"
  from assms(3) have W': "W' = updWidget (widgetOf T) (\<lambda>x. x\<lparr>inDocument := False\<rparr>) W1"
    by (auto simp: detach_def Let_def sendMessage_def W0_def W1_def split: if_splits)
  have "linked T W0"
    using assms(2) by (simp add: W0_def)
  then have "consistent False True T W1"
    unfolding W1_def using assms(1) by (intro beforeDetach_consistent)
  moreover have fl: "\<forall>x \<in> set (ids T). flagsOf W' x = flagsOf W1 x"
    by (simp add: W')
  ultimately show ?thesis
    by (simp add: consistent_flags [OF fl])
qed

lemma attach_structure:
  "attach T h W = Ok W' \<Longrightarrow>
   parent (store W' x) = parent (store W x) \<and> layout (store W' x) = layout (store W x)"
  by (auto simp: attach_def Let_def sendMessage_structure split: if_splits)

lemma detach_structure:
  "detach T W = Ok W' \<Longrightarrow>
   parent (store W' x) = parent (store W x) \<and> layout (store W' x) = layout (store W x)"
  by (auto simp: detach_def Let_def sendMessage_structure split: if_splits)

subsection \<open>A change inside a subtree\<close>

lemma subtrees_ids: "s \<in> subtrees T \<Longrightarrow> set (ids s) \<subseteq> set (ids T)"
proof (induction T)
  case (WTree w cs)
  show ?case
  proof (cases "s = WTree w cs")
    case True
    then show ?thesis by simp
  next
    case False
    with WTree.prems obtain c where c: "c \<in> set cs" "s \<in> subtrees c"
      by auto
    with WTree.IH have "set (ids s) \<subseteq> set (ids c)"
      by simp
    with c(1) show ?thesis
      by auto
  qed
qed

lemma subtrees_distinct: "s \<in> subtrees T \<Longrightarrow> distinct (ids T) \<Longrightarrow> distinct (ids s)"
proof (induction T)
  case (WTree w cs)
  show ?case
  proof (cases "s = WTree w cs")
    case True
    with WTree.prems show ?thesis by simp
  next
    case False
    with WTree.prems obtain c where c: "c \<in> set cs" "s \<in> subtrees c"
      by auto
    from ids_children(3) [OF WTree.prems(2) c(1)] c WTree.IH show ?thesis
      by simp
  qed
qed

lemma subtrees_linked: "s \<in> subtrees T \<Longrightarrow> linked T W \<Longrightarrow> linked s W"
proof (induction T)
  case (WTree w cs)
  show ?case
  proof (cases "s = WTree w cs")
    case True
    with WTree.prems show ?thesis by simp
  next
    case False
    with WTree.prems obtain c where c: "c \<in> set cs" "s \<in> subtrees c"
      by auto
    with WTree.prems(2) have "linked c W"
      by simp
    with c WTree.IH show ?thesis
      by simp
  qed
qed

lemma children_disjoint:
  "distinct (concat (map ids cs)) \<Longrightarrow> c \<in> set cs \<Longrightarrow> c0 \<in> set cs \<Longrightarrow>
   x \<in> set (ids c) \<Longrightarrow> x \<in> set (ids c0) \<Longrightarrow> c = c0"
  by (induction cs) auto

lemma consistent_subtree:
  assumes "s \<in> subtrees T" and "distinct (ids T)" and "linked T W"
    and "consistent att pv T W" and "parentVisible W (widgetOf T) = pv"
    and frame: "\<forall>x. x \<notin> set (ids s) \<longrightarrow> store W' x = store W x"
    and inside: "\<And>pv'. consistent att pv' s W \<Longrightarrow> parentVisible W (widgetOf s) = pv' \<Longrightarrow>
      consistent att pv' s W'"
  shows "consistent att pv T W'"
  using assms(1-5)
proof (induction T arbitrary: pv)
  case (WTree w cs)
  show ?case
  proof (cases "s = WTree w cs")
    case True
    from WTree.prems(4,5) have "consistent att pv s W'"
      unfolding True [symmetric] by (rule inside)
    then show ?thesis
      unfolding True .
  next
    case False
    with WTree.prems(1) obtain c0 where c0: "c0 \<in> set cs" "s \<in> subtrees c0"
      by auto
    note d = ids_children [OF WTree.prems(2)]
    have sub: "set (ids s) \<subseteq> set (ids c0)"
      using c0(2) by (rule subtrees_ids)
    with d(4) [OF c0(1)] have "w \<notin> set (ids s)"
      by auto
    with frame have root: "store W' w = store W w"
      by simp
    have kids: "consistent att (isVisible W w) c W'" if c: "c \<in> set cs" for c
    proof (cases "s \<in> subtrees c")
      case True
      have "parentOf W (widgetOf c) = Some w" and "linked c W"
        using WTree.prems(3) c by simp_all
      then have "parentVisible W (widgetOf c) = isVisible W w" and "linked c W"
        by (simp_all add: parentVisible_def)
      with True d(3) [OF c] consistent_child [OF WTree.prems(4) c] show ?thesis
        by (intro WTree.IH [OF c])
    next
      case no: False
      have "x \<notin> set (ids s)" if "x \<in> set (ids c)" for x
      proof
        assume "x \<in> set (ids s)"
        with sub have "x \<in> set (ids c0)"
          by auto
        with children_disjoint [OF d(2) c c0(1) that] have "c = c0"
          by simp
        with no c0(2) show False
          by simp
      qed
      with frame have same: "\<forall>x \<in> set (ids c). store W' x = store W x"
        by simp
      from consistent_child [OF WTree.prems(4) c] show ?thesis
        by (simp add: consistent_cong [OF same])
    qed
    from WTree.prems(4) have "isAttached W w = att"
      and "isVisible W w \<longleftrightarrow> att \<and> \<not> isHidden_w W w \<and> pv"
      by simp_all
    with kids show ?thesis
      by (simp add: same_widget [OF root])
  qed
qed

subsection \<open>The invariant of the reachable stores\<close>

lemma linked_kept:
  assumes "\<And>x. parent (store W' x) = parent (store W x) \<and> layout (store W' x) = layout (store W x)"
    and "linked T W" and "parentOf W (widgetOf T) = None"
  shows "linked T W' \<and> parentOf W' (widgetOf T) = None"
proof -
  from assms(1) have "\<forall>x. parent (store W' x) = parent (store W x)
      \<and> layout (store W' x) = layout (store W x)"
    by blast
  from linked_structure [OF this] assms show ?thesis
    by (simp add: parentOf_def)
qed

lemma show_w_kept:
  assumes "distinct (ids T)" and "linked T W" and "parentOf W (widgetOf T) = None"
    and "consistent att True T W" and "s \<in> subtrees T"
  shows "consistent att True T (show_w s W)
    \<and> linked T (show_w s W) \<and> parentOf (show_w s W) (widgetOf T) = None"
proof -
  have pv: "parentVisible W (widgetOf T) = True"
    using assms(3) by (simp add: parentVisible_def)
  have "consistent att True T (show_w s W)"
  proof (rule consistent_subtree [OF assms(5,1,2,4) pv])
    show "\<forall>x. x \<notin> set (ids s) \<longrightarrow> store (show_w s W) x = store W x"
      by (simp add: show_w_outside)
    show "consistent att pv' s (show_w s W)"
      if "consistent att pv' s W" and "parentVisible W (widgetOf s) = pv'" for pv'
      using subtrees_distinct [OF assms(5,1)] subtrees_linked [OF assms(5,2)] that
      by (rule show_w_consistent)
  qed
  moreover have "linked T (show_w s W) \<and> parentOf (show_w s W) (widgetOf T) = None"
    using assms(2,3) by (intro linked_kept [of "show_w s W" W]) (rule show_w_structure)
  ultimately show ?thesis
    by simp
qed

lemma hide_w_kept:
  assumes "distinct (ids T)" and "linked T W" and "parentOf W (widgetOf T) = None"
    and "consistent att True T W" and "s \<in> subtrees T"
  shows "consistent att True T (hide_w s W)
    \<and> linked T (hide_w s W) \<and> parentOf (hide_w s W) (widgetOf T) = None"
proof -
  have pv: "parentVisible W (widgetOf T) = True"
    using assms(3) by (simp add: parentVisible_def)
  have "consistent att True T (hide_w s W)"
  proof (rule consistent_subtree [OF assms(5,1,2,4) pv])
    show "\<forall>x. x \<notin> set (ids s) \<longrightarrow> store (hide_w s W) x = store W x"
      by (simp add: hide_w_outside)
    show "consistent att pv' s (hide_w s W)"
      if "consistent att pv' s W" and "parentVisible W (widgetOf s) = pv'" for pv'
      using subtrees_distinct [OF assms(5,1)] subtrees_linked [OF assms(5,2)] that
      by (rule hide_w_consistent)
  qed
  moreover have "linked T (hide_w s W) \<and> parentOf (hide_w s W) (widgetOf T) = None"
    using assms(2,3) by (intro linked_kept [of "hide_w s W" W]) (rule hide_w_structure)
  ultimately show ?thesis
    by simp
qed

lemma lifecycleReach_invariant:
  "lifecycleReach T W \<Longrightarrow>
   distinct (ids T) \<and> linked T W \<and> parentOf W (widgetOf T) = None
   \<and> (\<exists>att. consistent att True T W)"
proof (induction rule: lifecycleReach.induct)
  case (start W)
  then show ?case by blast
next
  case (attached W h W')
  then obtain att where a: "distinct (ids T)" "linked T W" "parentOf W (widgetOf T) = None"
    "consistent att True T W"
    by blast
  from attach_consistent [OF a(1,2,4) attached.hyps(2)]
  have "consistent True True T W'" by simp
  moreover have "linked T W' \<and> parentOf W' (widgetOf T) = None"
    using a(2,3) by (intro linked_kept [of W' W]) (rule attach_structure [OF attached.hyps(2)])
  ultimately show ?case
    using a(1) by blast
next
  case (detached W W')
  then have a: "distinct (ids T)" "linked T W" "parentOf W (widgetOf T) = None"
    by blast+
  from detach_consistent [OF a(1,2) detached.hyps(2)]
  have "consistent False True T W'" .
  moreover have "linked T W' \<and> parentOf W' (widgetOf T) = None"
    using a(2,3) by (intro linked_kept [of W' W]) (rule detach_structure [OF detached.hyps(2)])
  ultimately show ?case
    using a(1) by blast
next
  case (shown W s)
  then obtain att where a: "distinct (ids T)" "linked T W" "parentOf W (widgetOf T) = None"
    "consistent att True T W"
    by blast
  from show_w_kept [OF a shown.hyps(2)] a(1) show ?case
    by blast
next
  case (hidden W s)
  then obtain att where a: "distinct (ids T)" "linked T W" "parentOf W (widgetOf T) = None"
    "consistent att True T W"
    by blast
  from hide_w_kept [OF a hidden.hyps(2)] a(1) show ?case
    by blast
qed

subsection \<open>Visibility along the parent references\<close>

lemma ancestorOrSelf_unfold:
  "ancestorOrSelf W x a \<longleftrightarrow> a = x \<or> (\<exists>p. parentOf W x = Some p \<and> ancestorOrSelf W p a)"
proof
  assume "ancestorOrSelf W x a"
  then show "a = x \<or> (\<exists>p. parentOf W x = Some p \<and> ancestorOrSelf W p a)"
    by (cases rule: ancestorOrSelf.cases) auto
next
  assume "a = x \<or> (\<exists>p. parentOf W x = Some p \<and> ancestorOrSelf W p a)"
  then show "ancestorOrSelf W x a"
    by (auto intro: ancestorOrSelf.intros)
qed

lemma ancestorOrSelf_parentOf:
  assumes "parentOf W' = parentOf W"
  shows "ancestorOrSelf W' x a = ancestorOrSelf W x a"
proof
  assume "ancestorOrSelf W' x a"
  then show "ancestorOrSelf W x a"
    by (induction rule: ancestorOrSelf.induct) (auto intro: ancestorOrSelf.intros simp: assms)
next
  assume "ancestorOrSelf W x a"
  then show "ancestorOrSelf W' x a"
    by (induction rule: ancestorOrSelf.induct)
      (auto intro: ancestorOrSelf.intros simp: assms [symmetric])
qed

lemma consistent_visible:
  assumes "linked t W" and "consistent att pv t W"
    and "att \<Longrightarrow> pv = (case parentOf W (widgetOf t) of None \<Rightarrow> True
        | Some p \<Rightarrow> \<forall>a. ancestorOrSelf W p a \<longrightarrow> \<not> isHidden_w W a)"
    and "x \<in> set (ids t)"
  shows "isAttached W x = att
    \<and> (isVisible W x \<longleftrightarrow> att \<and> (\<forall>a. ancestorOrSelf W x a \<longrightarrow> \<not> isHidden_w W a))"
  using assms
proof (induction t arbitrary: pv)
  case (WTree w cs)
  have up: "(\<forall>a. ancestorOrSelf W w a \<longrightarrow> \<not> isHidden_w W a) \<longleftrightarrow>
      \<not> isHidden_w W w \<and> (case parentOf W w of None \<Rightarrow> True
        | Some p \<Rightarrow> \<forall>a. ancestorOrSelf W p a \<longrightarrow> \<not> isHidden_w W a)"
    by (subst ancestorOrSelf_unfold) (auto split: option.splits)
  from WTree.prems(2) have r: "isAttached W w = att"
    "isVisible W w \<longleftrightarrow> att \<and> \<not> isHidden_w W w \<and> pv"
    by simp_all
  have root: "isVisible W w \<longleftrightarrow> att \<and> (\<forall>a. ancestorOrSelf W w a \<longrightarrow> \<not> isHidden_w W a)"
  proof (cases att)
    case True
    with WTree.prems(3) r(2) up show ?thesis
      by simp
  next
    case False
    with r(2) show ?thesis
      by simp
  qed
  show ?case
  proof (cases "x = w")
    case True
    with r(1) root show ?thesis
      by simp
  next
    case False
    with WTree.prems(4) obtain c where c: "c \<in> set cs" "x \<in> set (ids c)"
      by auto
    have l: "linked c W" and p: "parentOf W (widgetOf c) = Some w"
      using WTree.prems(1) c(1) by simp_all
    show ?thesis
    proof (rule WTree.IH [OF c(1) l consistent_child [OF WTree.prems(2) c(1)] _ c(2)])
      assume att
      with root show "isVisible W w = (case parentOf W (widgetOf c) of None \<Rightarrow> True
          | Some p \<Rightarrow> \<forall>a. ancestorOrSelf W p a \<longrightarrow> \<not> isHidden_w W a)"
        by (simp add: p)
    qed
  qed
qed

subsection \<open>What \<open>show\<close> and \<open>hide\<close> do to the other flags\<close>

lemma lifecycleOnly_isHidden: "lifecycleOnly W W' \<Longrightarrow> isHidden_w W' = isHidden_w W"
  by (rule ext) (simp add: lifecycleOnly_def isHidden_w_def flagsOf_def)

lemma isHidden_w_sendMessage [simp]: "isHidden_w (sendMessage msg t W) = isHidden_w W"
  by (rule lifecycleOnly_isHidden [OF sendMessage_lifecycleOnly])

lemma same_store_isHidden: "store V' = store V \<Longrightarrow> isHidden_w V' = isHidden_w V"
  by (rule ext) (simp add: isHidden_w_def flagsOf_def)

lemma isHidden_w_show:
  "isHidden_w (show_w s W) x \<longleftrightarrow> x \<noteq> widgetOf s \<and> isHidden_w W x"
proof (cases "isHidden_w W (widgetOf s)")
  case False
  then show ?thesis
    by (auto simp: show_w_def)
next
  case True
  define w where "w = widgetOf s"
  define W1 where "W1 = updWidget w (\<lambda>x. x\<lparr>hiddenStyle := False\<rparr>) (clearFlagOf w IsHidden W)"
  define W2 where "W2 = (if isAttached W1 w \<and> parentVisible W1 w
      then sendMessage (AfterShow, None) s W1 else W1)"
  have "show_w s W = (case parentOf W2 w of None \<Rightarrow> W2
      | Some p \<Rightarrow> sendToParent (ChildShown, Some w) p W2)"
    unfolding show_w_def Let_def W2_def W1_def w_def
    using True by (simp only: simp_thms if_False)
  then have st: "store (show_w s W) = store W2"
    by (simp add: sendToParent_eq split: option.splits)
  have "isHidden_w W2 = isHidden_w W1"
    by (simp add: W2_def)
  moreover have "isHidden_w W1 x \<longleftrightarrow> x \<noteq> w \<and> isHidden_w W x"
    by (simp add: W1_def isHidden_w_def)
  ultimately show ?thesis
    by (simp add: same_store_isHidden [OF st] w_def)
qed

lemma isHidden_w_hide:
  "isHidden_w (hide_w s W) x \<longleftrightarrow> x = widgetOf s \<or> isHidden_w W x"
proof (cases "isHidden_w W (widgetOf s)")
  case True
  then show ?thesis
    by (auto simp: hide_w_def)
next
  case False
  define w where "w = widgetOf s"
  define W1 where "W1 = (if isAttached W w \<and> parentVisible W w
      then sendMessage (BeforeHide, None) s W else W)"
  define W2 where "W2 = updWidget w (\<lambda>x. x\<lparr>hiddenStyle := True\<rparr>) (setFlagOf w IsHidden W1)"
  have "hide_w s W = (case parentOf W2 w of None \<Rightarrow> W2
      | Some p \<Rightarrow> sendToParent (ChildHidden, Some w) p W2)"
    unfolding hide_w_def Let_def W2_def W1_def w_def
    using False by (rule if_not_P)
  then have st: "store (hide_w s W) = store W2"
    by (simp add: sendToParent_eq split: option.splits)
  have "isHidden_w W1 = isHidden_w W"
    by (simp add: W1_def)
  moreover have "isHidden_w W2 x \<longleftrightarrow> x = w \<or> isHidden_w W1 x"
    by (simp add: W2_def isHidden_w_def)
  ultimately show ?thesis
    by (simp add: same_store_isHidden [OF st] w_def)
qed

lemma parentOf_show [simp]: "parentOf (show_w s W) = parentOf W"
  by (rule ext) (simp add: parentOf_def show_w_structure)

lemma parentOf_hide [simp]: "parentOf (hide_w s W) = parentOf W"
  by (rule ext) (simp add: parentOf_def hide_w_structure)

lemma consistent_root_visible:
  assumes "linked T W" and "parentOf W (widgetOf T) = None" and "consistent att True T W"
    and "x \<in> set (ids T)"
  shows "isAttached W x = att
    \<and> (isVisible W x \<longleftrightarrow> att \<and> (\<forall>a. ancestorOrSelf W x a \<longrightarrow> \<not> isHidden_w W a))"
  using assms(1,3) _ assms(4)
proof (rule consistent_visible)
  show "True = (case parentOf W (widgetOf T) of None \<Rightarrow> True
        | Some p \<Rightarrow> \<forall>a. ancestorOrSelf W p a \<longrightarrow> \<not> isHidden_w W a)"
    by (simp add: assms(2))
qed


subsection \<open>The example stores\<close>

lemma chain_flags [simp]: "flagsOf chainWorld w = 0"
  by (simp add: chainWorld_def flagsOf_def freshWidget_def)

lemma chain_start: "lifecycleReach chainTree chainWorld"
proof (rule lifecycleReach.start)
  show "distinct (ids chainTree)"
    by (simp add: chainTree_def)
  show "linked chainTree chainWorld"
    by (simp add: chainTree_def) (simp add: chainWorld_def freshWidget_def)
  show "parentOf chainWorld (widgetOf chainTree) = None"
    by (simp add: chainTree_def)
  show "consistent False True chainTree chainWorld"
    by (simp add: chainTree_def vis_defs)
qed

lemma chain_attach: "attach chainTree True chainWorld = Ok attachedChain"
  by (simp add: attach_def attachedChain_def chainTree_def isAttached_def)
    (simp add: chainWorld_def freshWidget_def)

lemma chain_hidden [simp]: "\<not> isHidden_w attachedChain a"
  by (simp add: attachedChain_def) (simp add: isHidden_w_def)

lemma fresh_parent [simp]: "parentOf freshWorld w = None"
  by (simp add: freshWorld_def freshWidget_def parentOf_def)

lemma fresh_flags [simp]: "flagsOf freshWorld w = 0"
  by (simp add: freshWorld_def freshWidget_def flagsOf_def)

lemma fresh_store [simp]: "store freshWorld w = freshWidget"
  by (simp add: freshWorld_def)

lemma raw_delivery: "isVisible rawShown 0 \<and> \<not> isAttached rawShown 0"
  by (simp add: rawShown_def sendMessage_def isVisible_def isAttached_def freshWidget_def
      processMessage.simps notifyLayout.simps)

lemma root_attach: "attach (WTree 0 []) True freshWorld = Ok rootAttached"
  by (simp add: attach_def isAttached_def freshWidget_def rootAttached_def)

lemma root_visible: "isVisible rootAttached 0"
  by (simp add: rootAttached_def sendMessage_def isHidden_w_def parentVisible_def
      freshWidget_def Let_def processMessage.simps notifyLayout.simps isVisible_def)

lemma root_parents: "parentOf rootAttached = parentOf freshWorld"
  by (rule ext) (simp add: parentOf_def attach_structure [OF root_attach])

lemma adoption:
  "setParent (WTree 0 []) (Some 1) (hide_w (WTree 1 []) rootAttached) = Some (Ok adoptedWorld)"
proof -
  have "endsWithout (hide_w (WTree 1 []) rootAttached) 0 1"
    by (rule endsWithout.top) (simp_all add: root_parents)
  then have "containsLoop (hide_w (WTree 1 []) rootAttached) 0 (Some 1) = Some False"
    by (rule containsLoop_False)
  then show ?thesis
    by (simp add: setParent_def root_parents adoptedWorld_def)
qed

lemma adopted_state:
  "isVisible adoptedWorld 0 \<and> parentOf adoptedWorld 0 = Some 1 \<and> isHidden_w adoptedWorld 1"
proof -
  have "store (hide_w (WTree 1 []) rootAttached) 0 = store rootAttached 0"
    by (rule hide_w_outside) simp
  then have "isVisible (hide_w (WTree 1 []) rootAttached) 0"
    using root_visible by (simp add: isVisible_def flagsOf_def)
  moreover have "isHidden_w (hide_w (WTree 1 []) rootAttached) 1"
    by (simp add: isHidden_w_hide)
  ultimately show ?thesis
    by (simp add: adoptedWorld_def assignParent_eq vis_defs flagsOf_def parentOf_def)
qed

subsection \<open>The visibility invariant\<close>

text \<open>
  Claim C5, as stated, fails.  The invariant does not hold in every store the public
  operations reach.  Delivering \<open>after-show\<close> to a fresh widget sets its flag \<open>IsVisible\<close>
  although the widget is not attached.  Without any such delivery: widget 0 is attached as
  a root and is visible; widget 1 is hidden; assigning widget 1 as the parent of widget 0
  changes no flag, so that widget 0 is visible below an explicitly hidden parent.
\<close>

theorem visible_invariant_counterexample:
  "isVisible rawShown 0 \<and> \<not> isAttached rawShown 0
   \<and> publicReach True rawShown \<and> \<not> visibleInvariant rawShown
   \<and> attach (WTree 0 []) True freshWorld = Ok rootAttached
   \<and> setParent (WTree 0 []) (Some 1) (hide_w (WTree 1 []) rootAttached) = Some (Ok adoptedWorld)
   \<and> isVisible adoptedWorld 0 \<and> parentOf adoptedWorld 0 = Some 1 \<and> isHidden_w adoptedWorld 1
   \<and> publicReach False adoptedWorld \<and> \<not> visibleInvariant adoptedWorld"
proof -
  note a = raw_delivery
  note b = adopted_state
  have ra: "publicReach True rawShown"
    unfolding rawShown_def by (rule publicReach.delivered [OF TrueI publicReach.fresh])
  have rb: "publicReach False adoptedWorld"
    by (rule publicReach.reparented [OF publicReach.hidden
          [OF publicReach.attached [OF publicReach.fresh root_attach]] adoption])
  have na: "\<not> visibleInvariant rawShown"
    using a by (auto simp: visibleInvariant_def)
  have "ancestorOrSelf adoptedWorld 0 1"
    using b by (auto intro: ancestorOrSelf.intros)
  with b have nb: "\<not> visibleInvariant adoptedWorld"
    by (auto simp: visibleInvariant_def)
  from a ra na root_attach adoption b rb nb show ?thesis
    by simp
qed

text \<open>
  Claim C5, amended.  Take a tree of widgets, each widget with children having a layout whose
  children they are, the root without a parent, nothing attached; and the stores reached
  from it by \<open>Widget.attach\<close> and \<open>Widget.detach\<close> of the root and by \<open>show\<close> and \<open>hide\<close> of
  any widget of the tree.  In every such store a widget of the tree is visible if and only
  if it is attached, it is not explicitly hidden, and neither it nor any of its ancestors
  is explicitly hidden.  In particular, hiding a widget leaves none of its descendants
  visible; and after showing a widget, a widget of the tree is visible if and only if it is
  attached and neither it nor any of its ancestors, the shown widget apart, was explicitly
  hidden.
\<close>

theorem visible_in_lifecycle:
  assumes "lifecycleReach T W" and "x \<in> set (ids T)"
  shows "(isVisible W x \<longleftrightarrow>
        isAttached W x \<and> \<not> isHidden_w W x
        \<and> (\<forall>a. ancestorOrSelf W x a \<longrightarrow> \<not> isHidden_w W a))
    \<and> (\<forall>s \<in> subtrees T. ancestorOrSelf W x (widgetOf s) \<longrightarrow> \<not> isVisible (hide_w s W) x)
    \<and> (\<forall>s \<in> subtrees T. isVisible (show_w s W) x \<longleftrightarrow>
          isAttached W x
          \<and> (\<forall>a. ancestorOrSelf W x a \<longrightarrow> a \<noteq> widgetOf s \<longrightarrow> \<not> isHidden_w W a))"
proof -
  from lifecycleReach_invariant [OF assms(1)]
  obtain att where a: "distinct (ids T)" "linked T W" "parentOf W (widgetOf T) = None"
    "consistent att True T W"
    by blast
  note here = consistent_root_visible [OF a(2,3,4) assms(2)]
  have self: "ancestorOrSelf W x x"
    by (rule ancestorOrSelf.self)
  have one: "isVisible W x \<longleftrightarrow>
        isAttached W x \<and> \<not> isHidden_w W x
        \<and> (\<forall>a. ancestorOrSelf W x a \<longrightarrow> \<not> isHidden_w W a)"
    using here self by blast
  have two: "\<not> isVisible (hide_w s W) x"
    if s: "s \<in> subtrees T" and up: "ancestorOrSelf W x (widgetOf s)" for s
  proof -
    from hide_w_kept [OF a s]
    have k: "linked T (hide_w s W)" "parentOf (hide_w s W) (widgetOf T) = None"
      "consistent att True T (hide_w s W)"
      by simp_all
    note there = consistent_root_visible [OF k assms(2)]
    have "ancestorOrSelf (hide_w s W) x (widgetOf s)"
      using up by (simp add: ancestorOrSelf_parentOf [OF parentOf_hide])
    moreover have "isHidden_w (hide_w s W) (widgetOf s)"
      by (simp add: isHidden_w_hide)
    ultimately show ?thesis
      using there by blast
  qed
  have three: "isVisible (show_w s W) x \<longleftrightarrow>
          isAttached W x
          \<and> (\<forall>a. ancestorOrSelf W x a \<longrightarrow> a \<noteq> widgetOf s \<longrightarrow> \<not> isHidden_w W a)"
    if s: "s \<in> subtrees T" for s
  proof -
    from show_w_kept [OF a s]
    have k: "linked T (show_w s W)" "parentOf (show_w s W) (widgetOf T) = None"
      "consistent att True T (show_w s W)"
      by simp_all
    note there = consistent_root_visible [OF k assms(2)]
    have "isVisible (show_w s W) x \<longleftrightarrow>
        att \<and> (\<forall>a. ancestorOrSelf W x a \<longrightarrow> \<not> isHidden_w (show_w s W) a)"
      using there by (simp add: ancestorOrSelf_parentOf [OF parentOf_show])
    also have "\<dots> \<longleftrightarrow> isAttached W x
          \<and> (\<forall>a. ancestorOrSelf W x a \<longrightarrow> a \<noteq> widgetOf s \<longrightarrow> \<not> isHidden_w W a)"
      using here by (auto simp: isHidden_w_show)
    finally show ?thesis .
  qed
  from one two three show ?thesis
    by blast
qed

theorem visible_in_lifecycle_witness:
  "lifecycleReach chainTree attachedChain \<and> 2 \<in> set (ids chainTree)
   \<and> chainTree \<in> subtrees chainTree
   \<and> isVisible attachedChain 2
   \<and> ancestorOrSelf attachedChain 2 (widgetOf chainTree)
   \<and> \<not> isVisible (hide_w chainTree attachedChain) 2
   \<and> \<not> isHidden_w (hide_w chainTree attachedChain) 2
   \<and> isVisible (show_w chainTree (hide_w chainTree attachedChain)) 2"
proof -
  define Wh where "Wh = hide_w chainTree attachedChain"
  have r1: "lifecycleReach chainTree attachedChain"
    by (rule lifecycleReach.attached [OF chain_start chain_attach])
  have mem: "2 \<in> set (ids chainTree)" and sub: "chainTree \<in> subtrees chainTree"
    by (simp_all add: chainTree_def)
  have r2: "lifecycleReach chainTree Wh"
    unfolding Wh_def by (rule lifecycleReach.hidden [OF r1 sub])
  have d: "distinct (ids chainTree)" and l: "linked chainTree chainWorld"
    and c: "consistent False True chainTree chainWorld"
    and p: "parentOf chainWorld (widgetOf chainTree) = None"
    using lifecycleReach_invariant [OF chain_start]
    by (simp_all add: chainTree_def vis_defs)
  from attach_consistent [OF d l c chain_attach]
  have c1: "consistent True True chainTree attachedChain"
    by simp
  have k1: "linked chainTree attachedChain \<and> parentOf attachedChain (widgetOf chainTree) = None"
    using l p by (intro linked_kept [of attachedChain chainWorld])
      (rule attach_structure [OF chain_attach])
  then have l1: "linked chainTree attachedChain"
    and p1: "parentOf attachedChain (widgetOf chainTree) = None"
    by simp_all
  from consistent_root_visible [OF l1 p1 c1 mem] have a1: "isAttached attachedChain 2"
    by simp
  from hide_w_kept [OF d l1 p1 c1 sub]
  have kh: "linked chainTree Wh" "parentOf Wh (widgetOf chainTree) = None"
    "consistent True True chainTree Wh"
    by (simp_all add: Wh_def)
  from consistent_root_visible [OF kh mem] have ah: "isAttached Wh 2"
    by simp
  have par: "parentOf attachedChain = parentOf chainWorld"
    by (rule ext) (simp add: parentOf_def attach_structure [OF chain_attach])
  have up: "ancestorOrSelf attachedChain 2 (widgetOf chainTree)"
    unfolding ancestorOrSelf_parentOf [OF par]
    by (simp add: chainTree_def)
      (rule ancestorOrSelf.step [of _ _ 1], simp,
        rule ancestorOrSelf.step [of _ _ 0], simp, rule ancestorOrSelf.self)
  have hh: "isHidden_w Wh a \<longleftrightarrow> a = 0" for a
    by (simp add: Wh_def isHidden_w_hide chainTree_def)
  note t1 = visible_in_lifecycle [OF r1 mem]
  note t2 = visible_in_lifecycle [OF r2 mem]
  have v1: "isVisible attachedChain 2"
    using t1 a1 by simp
  have v2: "\<not> isVisible (hide_w chainTree attachedChain) 2"
    using t1 sub up by blast
  have v3: "isVisible (show_w chainTree Wh) 2"
    using t2 sub ah by (simp add: hh chainTree_def)
  from r1 mem sub v1 up v2 v3 hh [of 2] show ?thesis
    by (simp add: Wh_def)
qed


end
